theory Spec2Isabelle
  imports Main
begin

section \<open>Python values, signatures and calls\<close>

text \<open>
  The values that travel through the cache: the JSON-representable part of Python's
  objects. A \<open>dict\<close> keeps its insertion order, so it is an association list; the
  keys of the dictionaries built here are parameter or argument names, hence strings.
  A Python \<open>str\<close> is a \<open>string\<close> whose characters are the code points U+0000 to
  U+00FF; \<open>bytes\<close> is a \<open>string\<close> whose characters are the bytes.
\<close>

datatype pyval =
    VNone
  | VBool bool
  | VInt int
  | VStr string
  | VList "pyval list"
  | VDict "(string \<times> pyval) list"

type_synonym bytes = string
type_synonym pydict = "(string \<times> pyval) list"

text \<open>The exceptions that the modelled code can meet, by class.\<close>

datatype exn =
    ConnectionError
  | TimeoutError
  | ResponseError
  | TypeError
  | AttributeError
  | IndexError
  | ValueError
  | RuntimeError

text \<open>\<open>inspect.Parameter.kind\<close>, and a signature as the ordered parameters.\<close>

datatype param_kind =
    POSITIONAL_ONLY
  | POSITIONAL_OR_KEYWORD
  | VAR_POSITIONAL
  | KEYWORD_ONLY
  | VAR_KEYWORD

type_synonym signature = "(string \<times> param_kind) list"

text \<open>\<open>d[k] = v\<close> on an insertion-ordered dict: a key already there keeps its place.\<close>

fun dict_set :: "(string \<times> 'v) list \<Rightarrow> string \<Rightarrow> 'v \<Rightarrow> (string \<times> 'v) list" where
  "dict_set [] k v = [(k, v)]"
| "dict_set ((k', v') # d) k v =
     (if k' = k then (k, v) # d else (k', v') # dict_set d k v)"

section \<open>The argument normalizer: \<open>get_args\<close>\<close>

definition standard_args :: "signature \<Rightarrow> string list" where
  "standard_args arg_sig = map fst (filter (\<lambda>p. snd p = POSITIONAL_OR_KEYWORD) arg_sig)"

definition allowed_kwargs :: "signature \<Rightarrow> string set" where
  "allowed_kwargs arg_sig =
     set (map fst (filter (\<lambda>p. snd p = POSITIONAL_OR_KEYWORD \<or> snd p = KEYWORD_ONLY) arg_sig))"

definition variable_args :: "signature \<Rightarrow> string list" where
  "variable_args arg_sig = map fst (filter (\<lambda>p. snd p = VAR_POSITIONAL) arg_sig)"

definition variable_kwargs :: "signature \<Rightarrow> string list" where
  "variable_kwargs arg_sig = map fst (filter (\<lambda>p. snd p = VAR_KEYWORD) arg_sig)"

text \<open>
  The loop over \<open>enumerate(args)\<close>. \<open>standard_args[index]\<close> raises IndexError exactly
  when \<open>index\<close> is past the end; the handler appends to the list kept under the name of
  the first variable-positional parameter, or drops the value when there is none.
  \<open>.append\<close> on a value that is no list raises AttributeError.
\<close>

fun positional_loop ::
  "string list \<Rightarrow> string list \<Rightarrow> nat \<Rightarrow> pyval list \<Rightarrow> pydict \<Rightarrow> exn + pydict" where
  "positional_loop std var index [] parsed_args = Inr parsed_args"
| "positional_loop std var index (arg # rest) parsed_args =
     (if index < length std
      then positional_loop std var (Suc index) rest (dict_set parsed_args (std ! index) arg)
      else
        (case var of
           [] \<Rightarrow> positional_loop std var (Suc index) rest parsed_args
         | vargs_name # _ \<Rightarrow>
             (let parsed1 =
                    (if vargs_name \<notin> fst ` set parsed_args
                     then dict_set parsed_args vargs_name (VList [])
                     else parsed_args)
              in case map_of parsed1 vargs_name of
                   Some (VList xs) \<Rightarrow>
                     positional_loop std var (Suc index) rest
                       (dict_set parsed1 vargs_name (VList (xs @ [arg])))
                 | _ \<Rightarrow> Inl AttributeError)))"

text \<open>
  The loop over \<open>kwargs.items()\<close>. Item assignment into a value that is no dict raises
  TypeError.
\<close>

fun kwargs_loop ::
  "string set \<Rightarrow> string list \<Rightarrow> pydict \<Rightarrow> pydict \<Rightarrow> exn + pydict" where
  "kwargs_loop allowed varkw [] parsed_args = Inr parsed_args"
| "kwargs_loop allowed varkw ((key, val) # rest) parsed_args =
     (if key \<in> allowed
      then kwargs_loop allowed varkw rest (dict_set parsed_args key val)
      else
        (case varkw of
           [] \<Rightarrow> kwargs_loop allowed varkw rest parsed_args
         | vkwargs_name # _ \<Rightarrow>
             (let parsed1 =
                    (if vkwargs_name \<notin> fst ` set parsed_args
                     then dict_set parsed_args vkwargs_name (VDict [])
                     else parsed_args)
              in case map_of parsed1 vkwargs_name of
                   Some (VDict d) \<Rightarrow>
                     kwargs_loop allowed varkw rest
                       (dict_set parsed1 vkwargs_name (VDict (dict_set d key val)))
                 | _ \<Rightarrow> Inl TypeError)))"

definition get_args :: "signature \<Rightarrow> pyval list \<Rightarrow> pydict \<Rightarrow> exn + pydict" where
  "get_args arg_sig args kwargs =
     (case (if standard_args arg_sig \<noteq> [] \<or> variable_args arg_sig \<noteq> []
            then positional_loop (standard_args arg_sig) (variable_args arg_sig) 0 args []
            else Inr [])
      of Inl e \<Rightarrow> Inl e
       | Inr parsed_args \<Rightarrow>
           (if kwargs \<noteq> []
            then kwargs_loop (allowed_kwargs arg_sig) (variable_kwargs arg_sig) kwargs parsed_args
            else Inr parsed_args))"


definition wf_signature :: "signature \<Rightarrow> bool" where
  "wf_signature arg_sig = distinct (map fst arg_sig)"

section \<open>Serialization: compact JSON, UTF-8 and base64\<close>

text \<open>
  \<open>compact_dump\<close> is \<open>json.dumps(value, separators=(',', ':'))\<close>. The standard
  library's encoder is modelled on the values of \<open>pyval\<close>: \<open>ensure_ascii\<close> is on, so a
  character outside the printable ASCII range is written as a \<open>\u00XX\<close> escape, and a
  dict is written in its own (insertion) order, since \<open>sort_keys\<close> is not passed.
\<close>

definition digit_char :: "nat \<Rightarrow> char" where
  "digit_char n = char_of (48 + n)"

fun str_nat :: "nat \<Rightarrow> string" where
  "str_nat n = (if n < 10 then [digit_char n] else str_nat (n div 10) @ [digit_char (n mod 10)])"

declare str_nat.simps [simp del]

definition str_int :: "int \<Rightarrow> string" where
  "str_int i = (if i < 0 then CHR ''-'' # str_nat (nat (- i)) else str_nat (nat i))"

definition hex_char :: "nat \<Rightarrow> char" where
  "hex_char n = ''0123456789abcdef'' ! n"

definition escape_char :: "char \<Rightarrow> string" where
  "escape_char c =
     (let n = (of_char c :: nat) in
      if n = 0x22 then [CHR 0x5C, CHR 0x22]
      else if n = 0x5C then [CHR 0x5C, CHR 0x5C]
      else if n = 0x0A then [CHR 0x5C, CHR ''n'']
      else if n = 0x0D then [CHR 0x5C, CHR ''r'']
      else if n = 0x09 then [CHR 0x5C, CHR ''t'']
      else if n = 0x08 then [CHR 0x5C, CHR ''b'']
      else if n = 0x0C then [CHR 0x5C, CHR ''f'']
      else if n < 0x20 \<or> 0x7E < n
        then [CHR 0x5C, CHR ''u'', CHR ''0'', CHR ''0'', hex_char (n div 16), hex_char (n mod 16)]
      else [c])"

definition json_string :: "string \<Rightarrow> string" where
  "json_string s = CHR 0x22 # concat (map escape_char s) @ [CHR 0x22]"

fun join_comma :: "string list \<Rightarrow> string" where
  "join_comma [] = []"
| "join_comma [x] = x"
| "join_comma (x # y # zs) = x @ '','' @ join_comma (y # zs)"

fun dumps :: "pyval \<Rightarrow> string" where
  "dumps VNone = ''null''"
| "dumps (VBool b) = (if b then ''true'' else ''false'')"
| "dumps (VInt i) = str_int i"
| "dumps (VStr s) = json_string s"
| "dumps (VList xs) = ''['' @ join_comma (map dumps xs) @ '']''"
| "dumps (VDict d) =
     ''{'' @ join_comma (map (\<lambda>kv. json_string (fst kv) @ '':'' @ dumps (snd kv)) d) @ ''}''"

text \<open>What a serializer hands back: a \<open>str\<close> or \<open>bytes\<close>.\<close>

datatype serialized = SStr string | SBytes bytes

definition compact_dump :: "pyval \<Rightarrow> exn + serialized" where
  "compact_dump v = Inr (SStr (dumps v))"

text \<open>\<open>str.encode('utf-8')\<close> on code points below U+0100.\<close>

definition utf8_char :: "char \<Rightarrow> bytes" where
  "utf8_char c =
     (let n = (of_char c :: nat) in
      if n < 128 then [c] else [char_of (192 + n div 64), char_of (128 + n mod 64)])"

definition encode_utf8 :: "string \<Rightarrow> bytes" where
  "encode_utf8 s = concat (map utf8_char s)"

text \<open>\<open>base64.b64encode\<close>: the standard alphabet, padded with \<open>=\<close>.\<close>

definition b64_alphabet :: string where
  "b64_alphabet = ''ABCDEFGHIJKLMNOPQRSTUVWXYZabcdefghijklmnopqrstuvwxyz0123456789+/''"

definition b64_char :: "nat \<Rightarrow> char" where
  "b64_char n = b64_alphabet ! n"

fun b64_groups :: "nat list \<Rightarrow> string" where
  "b64_groups [] = []"
| "b64_groups [a] =
     [b64_char (a div 4), b64_char ((a mod 4) * 16), CHR ''='', CHR ''='']"
| "b64_groups [a, b] =
     [b64_char (a div 4), b64_char ((a mod 4) * 16 + b div 16),
      b64_char ((b mod 16) * 4), CHR ''='']"
| "b64_groups (a # b # c # rest) =
     [b64_char (a div 4), b64_char ((a mod 4) * 16 + b div 16),
      b64_char ((b mod 16) * 4 + c div 64), b64_char (c mod 64)] @ b64_groups rest"

definition b64encode :: "bytes \<Rightarrow> string" where
  "b64encode data = b64_groups (map of_char data)"

text \<open>
  Reading the two encodings back, written from their specifications and not from the
  encoders above. Base64 (RFC 4648): every character stands for its position in the
  alphabet, four characters give three bytes, and \<open>=\<close> pads the last group. UTF-8
  (RFC 3629), for code points below U+0100: a byte below 0x80 is the code point itself,
  and the lead byte 0xC2 or 0xC3 with a continuation byte 0x80 to 0xBF gives the code
  point whose high bits are the low five bits of the first and whose low six bits are
  those of the second.
\<close>

definition b64_value :: "char \<Rightarrow> nat option" where
  "b64_value c = map_of (zip b64_alphabet [0..<64]) c"

fun b64decode :: "string \<Rightarrow> bytes option" where
  "b64decode [] = Some []"
| "b64decode (c1 # c2 # c3 # c4 # rest) =
     (case b64_value c1 of
        None \<Rightarrow> None
      | Some v1 \<Rightarrow>
          (case b64_value c2 of
             None \<Rightarrow> None
           | Some v2 \<Rightarrow>
               (if c3 = CHR ''='' \<and> c4 = CHR ''='' \<and> rest = []
                then (if v2 mod 16 = 0 then Some [char_of (v1 * 4 + v2 div 16)] else None)
                else
                  (case b64_value c3 of
                     None \<Rightarrow> None
                   | Some v3 \<Rightarrow>
                       (if c4 = CHR ''='' \<and> rest = []
                        then (if v3 mod 4 = 0
                              then Some [char_of (v1 * 4 + v2 div 16),
                                         char_of ((v2 mod 16) * 16 + v3 div 4)]
                              else None)
                        else
                          (case b64_value c4 of
                             None \<Rightarrow> None
                           | Some v4 \<Rightarrow>
                               (case b64decode rest of
                                  None \<Rightarrow> None
                                | Some bs \<Rightarrow>
                                    Some (char_of (v1 * 4 + v2 div 16)
                                          # char_of ((v2 mod 16) * 16 + v3 div 4)
                                          # char_of ((v3 mod 4) * 64 + v4) # bs))))))))"
| "b64decode _ = None"

fun decode_utf8 :: "bytes \<Rightarrow> string option" where
  "decode_utf8 [] = Some []"
| "decode_utf8 [b] = (if (of_char b :: nat) < 0x80 then Some [b] else None)"
| "decode_utf8 (b # c # rest) =
     (if (of_char b :: nat) < 0x80
      then (case decode_utf8 (c # rest) of None \<Rightarrow> None | Some s \<Rightarrow> Some (b # s))
      else if ((of_char b :: nat) = 0xC2 \<or> (of_char b :: nat) = 0xC3)
              \<and> 0x80 \<le> (of_char c :: nat) \<and> (of_char c :: nat) < 0xC0
      then (case decode_utf8 rest of
              None \<Rightarrow> None
            | Some s \<Rightarrow> Some (char_of (((of_char b :: nat) - 0xC0) * 64 + ((of_char c :: nat) - 0x80)) # s))
      else None)"

section \<open>The decorator and the key codec\<close>

text \<open>The wrapped callable: where it is defined, its signature and what it computes.\<close>

record pyfunction =
  fn_module :: string
  fn_qualname :: string
  fn_signature :: signature
  fn_body :: "pyval list \<Rightarrow> pydict \<Rightarrow> exn + pyval"

text \<open>
  The constructor's arguments of \<open>CacheDecorator\<close>. \<open>fallback_exceptions\<close> is the
  tuple of classes of the \<open>except\<close> clause, as the test it performs on a raised
  exception. \<open>key_serializer\<close> and \<open>namespace\<close> may be \<open>None\<close>.
\<close>

record cache_config =
  prefix :: string
  serializer :: "pyval \<Rightarrow> exn + serialized"
  deserializer :: "bytes \<Rightarrow> exn + pyval"
  key_serializer :: "(pyval \<Rightarrow> exn + serialized) option"
  ttl :: int
  limit :: int
  namespace :: "string option"
  fallback_exceptions :: "exn \<Rightarrow> bool"

text \<open>The instance once \<open>__call__\<close> has run: \<open>keys_key\<close> and \<open>original_fn\<close> are set.\<close>

record cache_decorator = cache_config +
  keys_key :: string
  original_fn :: pyfunction

text \<open>An f-string renders \<open>None\<close> as the text \<open>None\<close>.\<close>

definition format_namespace :: "string option \<Rightarrow> string" where
  "format_namespace ns = (case ns of None \<Rightarrow> ''None'' | Some s \<Rightarrow> s)"

definition get_full_prefix :: "'a cache_config_scheme \<Rightarrow> string" where
  "get_full_prefix self = ''{'' @ prefix self @ '':'' @ format_namespace (namespace self) @ ''}''"

definition to_bytes :: "serialized \<Rightarrow> bytes" where
  "to_bytes serialized_data =
     (case serialized_data of SStr s \<Rightarrow> encode_utf8 s | SBytes b \<Rightarrow> b)"

definition get_key :: "cache_decorator \<Rightarrow> pyval list \<Rightarrow> pydict \<Rightarrow> exn + string" where
  "get_key self args kwargs =
     (case get_args (fn_signature (original_fn self)) args kwargs of
        Inl e \<Rightarrow> Inl e
      | Inr normalized_args \<Rightarrow>
          (case (case key_serializer self of
                   Some ks \<Rightarrow> ks (VDict normalized_args)
                 | None \<Rightarrow> serializer self (VDict normalized_args))
           of Inl e \<Rightarrow> Inl e
            | Inr serialized_data \<Rightarrow>
                Inr (get_full_prefix self @ '':'' @ b64encode (to_bytes serialized_data))))"

text \<open>\<open>CacheDecorator.__call__\<close>: an absent or empty namespace becomes module.qualname.\<close>

definition decorator_call :: "cache_config \<Rightarrow> pyfunction \<Rightarrow> cache_decorator" where
  "decorator_call cfg fn =
     (let ns = (case namespace cfg of
                  Some s \<Rightarrow> if s \<noteq> [] then s else fn_module fn @ ''.'' @ fn_qualname fn
                | None \<Rightarrow> fn_module fn @ ''.'' @ fn_qualname fn);
          cfg1 = cfg\<lparr>namespace := Some ns\<rparr>
      in cache_config.extend cfg1
           (cache_decorator.fields (get_full_prefix cfg1 @ '':keys'') fn))"


section \<open>The store\<close>

text \<open>
  The key-value store as the code uses it: one keyspace whose values are strings (with
  an optional expiry deadline) or sorted sets. A sorted set is kept in ascending order of
  (score, member); its members are distinct. The server clock is the pair that \<open>TIME\<close>
  returns, seconds and microseconds (below a million); deadlines are in microseconds.
  An entry past its deadline is no longer there for any command (\<open>lookup\<close>).

  \<open>sent\<close> lists the commands the server has run, \<open>invoked\<close> the calls made of wrapped
  functions, and \<open>down\<close> is the exception every request to the store raises while the
  store cannot be reached. \<open>ticks\<close> lists the microseconds that pass on the server before
  each script still to run in a pipeline.
\<close>

datatype entry =
    Str bytes "nat option"
  | ZSet "(nat \<times> string) list"

datatype command =
    GET string
  | MGET "string list"
  | SET string bytes
  | SETEX string int bytes
  | TIME
  | ZADD string nat string
  | ZCOUNT string
  | ZPOPMIN string int
  | ZREM string "string list"
  | DEL "string list"

record world =
  store :: "string \<Rightarrow> entry option"
  clock :: "nat \<times> nat"
  down :: "exn option"
  sent :: "command list"
  invoked :: "(string \<times> pyval list \<times> pydict) list"
  ticks :: "nat list"

definition now_us :: "world \<Rightarrow> nat" where
  "now_us w = fst (clock w) * 1000000 + snd (clock w)"

definition lookup :: "world \<Rightarrow> string \<Rightarrow> entry option" where
  "lookup w k =
     (case store w k of
        Some (Str v (Some deadline)) \<Rightarrow>
          (if deadline \<le> now_us w then None else Some (Str v (Some deadline)))
      | r \<Rightarrow> r)"

definition log :: "command \<Rightarrow> world \<Rightarrow> world" where
  "log c w = w\<lparr>sent := sent w @ [c]\<rparr>"

definition redis_set :: "world \<Rightarrow> string \<Rightarrow> bytes \<Rightarrow> world" where
  "redis_set w k v = log (SET k v) (w\<lparr>store := (store w)(k \<mapsto> Str v None)\<rparr>)"

text \<open>
  \<open>SETEX\<close> as the script calls it, with a ttl above zero. The definition describes the
  command for the ttl values that \<open>ttl_accepted\<close> names: the ttl reaches the server
  unchanged (an integer is exact as a Lua number up to \<open>2 ^ 53\<close>) and the deadline, in
  milliseconds, fits the signed 64-bit integer the server keeps it in. Past that range
  the server refuses the command and writes nothing.
\<close>

definition ttl_accepted :: "world \<Rightarrow> int \<Rightarrow> bool" where
  "ttl_accepted w seconds =
     (seconds \<le> 2 ^ 53
      \<and> fst (clock w) * 1000 + snd (clock w) div 1000 + nat seconds * 1000 < 2 ^ 63)"

definition redis_setex :: "world \<Rightarrow> string \<Rightarrow> int \<Rightarrow> bytes \<Rightarrow> world" where
  "redis_setex w k seconds v =
     log (SETEX k seconds v)
       (w\<lparr>store := (store w)(k \<mapsto> Str v (Some (now_us w + nat seconds * 1000000)))\<rparr>)"

definition redis_time :: "world \<Rightarrow> (nat \<times> nat) \<times> world" where
  "redis_time w = (clock w, log TIME w)"

text \<open>Bytewise comparison of members, and the order of a sorted set.\<close>

fun str_le :: "string \<Rightarrow> string \<Rightarrow> bool" where
  "str_le [] ys = True"
| "str_le (x # xs) [] = False"
| "str_le (x # xs) (y # ys) =
     ((of_char x :: nat) < of_char y \<or> (x = y \<and> str_le xs ys))"

definition zle :: "nat \<times> string \<Rightarrow> nat \<times> string \<Rightarrow> bool" where
  "zle a b = (fst a < fst b \<or> (fst a = fst b \<and> str_le (snd a) (snd b)))"

fun zinsert :: "nat \<times> string \<Rightarrow> (nat \<times> string) list \<Rightarrow> (nat \<times> string) list" where
  "zinsert x [] = [x]"
| "zinsert x (y # ys) = (if zle x y then x # y # ys else y # zinsert x ys)"

definition put_zset :: "world \<Rightarrow> string \<Rightarrow> (nat \<times> string) list \<Rightarrow> world" where
  "put_zset w k zs =
     (if zs = [] then w\<lparr>store := (store w)(k := None)\<rparr>
      else w\<lparr>store := (store w)(k \<mapsto> ZSet zs)\<rparr>)"

definition redis_zadd :: "world \<Rightarrow> string \<Rightarrow> nat \<Rightarrow> string \<Rightarrow> exn + world" where
  "redis_zadd w k score member =
     (case lookup w k of
        Some (Str _ _) \<Rightarrow> Inl ResponseError
      | Some (ZSet zs) \<Rightarrow>
          Inr (log (ZADD k score member)
                 (put_zset w k (zinsert (score, member) (filter (\<lambda>e. snd e \<noteq> member) zs))))
      | None \<Rightarrow> Inr (log (ZADD k score member) (put_zset w k [(score, member)])))"

definition redis_zcount :: "world \<Rightarrow> string \<Rightarrow> exn + (nat \<times> world)" where
  "redis_zcount w k =
     (case lookup w k of
        Some (Str _ _) \<Rightarrow> Inl ResponseError
      | Some (ZSet zs) \<Rightarrow> Inr (length zs, log (ZCOUNT k) w)
      | None \<Rightarrow> Inr (0, log (ZCOUNT k) w))"

text \<open>The reply of \<open>ZPOPMIN\<close> is flat: member, score, member, score, ...\<close>

fun flat_reply :: "(nat \<times> string) list \<Rightarrow> string list" where
  "flat_reply [] = []"
| "flat_reply ((score, member) # rest) = member # str_nat score # flat_reply rest"

definition redis_zpopmin :: "world \<Rightarrow> string \<Rightarrow> int \<Rightarrow> exn + (string list \<times> world)" where
  "redis_zpopmin w k n =
     (case lookup w k of
        Some (Str _ _) \<Rightarrow> Inl ResponseError
      | Some (ZSet zs) \<Rightarrow>
          Inr (flat_reply (take (nat n) zs), log (ZPOPMIN k n) (put_zset w k (drop (nat n) zs)))
      | None \<Rightarrow> Inr ([], log (ZPOPMIN k n) w))"

definition redis_zrem :: "world \<Rightarrow> string \<Rightarrow> string list \<Rightarrow> exn + world" where
  "redis_zrem w k members =
     (if members = [] then Inl ResponseError
      else case lookup w k of
        Some (Str _ _) \<Rightarrow> Inl ResponseError
      | Some (ZSet zs) \<Rightarrow>
          Inr (log (ZREM k members) (put_zset w k (filter (\<lambda>e. snd e \<notin> set members) zs)))
      | None \<Rightarrow> Inr (log (ZREM k members) w))"

definition redis_del :: "world \<Rightarrow> string list \<Rightarrow> exn + world" where
  "redis_del w ks =
     (if ks = [] then Inl ResponseError
      else Inr (log (DEL ks) (w\<lparr>store := (\<lambda>k. if k \<in> set ks then None else store w k)\<rparr>)))"

section \<open>The atomic store-and-evict script\<close>

text \<open>
  \<open>tonumber(time_parts[1] .. '.' .. time_parts[2])\<close>: the decimal number whose integer
  part is the seconds and whose fraction digits are the microseconds as \<open>TIME\<close> prints
  them, without leading zeros. The score is kept exactly, in millionths (the rounding of
  the number to a double is left out).
\<close>

definition lua_time :: "nat \<times> nat \<Rightarrow> nat" where
  "lua_time time_parts =
     fst time_parts * 1000000 + snd time_parts * 10 ^ (6 - length (str_nat (snd time_parts)))"

text \<open>\<open>for i = 1, #stale_keys_and_scores, 2 do ... end\<close>: every other element.\<close>

fun stale_keys_of :: "string list \<Rightarrow> string list" where
  "stale_keys_of [] = []"
| "stale_keys_of [k] = [k]"
| "stale_keys_of (k # s # rest) = k # stale_keys_of rest"

text \<open>
  The script, with \<open>KEYS = [key1, key2]\<close> and \<open>ARGV = [value, ttl, limit]\<close>. A command
  that fails ends the script with that error; what ran before it stays done. The result
  is the error, if any, and the world the script leaves.
\<close>

definition evict :: "world \<Rightarrow> string \<Rightarrow> string \<Rightarrow> int \<Rightarrow> exn option \<times> world" where
  "evict w key1 key2 size_limit =
     (case redis_time w of (time_parts, w2) \<Rightarrow>
        (case redis_zadd w2 key2 (lua_time time_parts) key1 of
           Inl e \<Rightarrow> (Some e, w2)
         | Inr w3 \<Rightarrow>
             (case redis_zcount w3 key2 of
                Inl e \<Rightarrow> (Some e, w3)
              | Inr (count, w4) \<Rightarrow>
                  (let over = int count - size_limit in
                   if over > 0 then
                     (case redis_zpopmin w4 key2 over of
                        Inl e \<Rightarrow> (Some e, w4)
                      | Inr (stale_keys_and_scores, w5) \<Rightarrow>
                          (let stale_keys = stale_keys_of stale_keys_and_scores in
                           case redis_zrem w5 key2 stale_keys of
                             Inl e \<Rightarrow> (Some e, w5)
                           | Inr w6 \<Rightarrow>
                               (case redis_del w6 stale_keys of
                                  Inl e \<Rightarrow> (Some e, w6)
                                | Inr w7 \<Rightarrow> (None, w7))))
                   else (None, w4)))))"

definition lua_cache_fn ::
  "world \<Rightarrow> string \<Rightarrow> string \<Rightarrow> bytes \<Rightarrow> int \<Rightarrow> int \<Rightarrow> exn option \<times> world" where
  "lua_cache_fn w key1 key2 val ttl_arg limit_arg =
     (let w1 = (if ttl_arg > 0 then redis_setex w key1 ttl_arg val else redis_set w key1 val)
      in if limit_arg > 0 then evict w1 key1 key2 limit_arg else (None, w1))"

text \<open>The script as the client calls it: unreachable, the store raises and nothing runs.\<close>

definition get_cache_lua_fn ::
  "world \<Rightarrow> string \<Rightarrow> string \<Rightarrow> bytes \<Rightarrow> int \<Rightarrow> int \<Rightarrow> exn option \<times> world" where
  "get_cache_lua_fn w key1 key2 val ttl_arg limit_arg =
     (case down w of
        Some e \<Rightarrow> (Some e, w)
      | None \<Rightarrow> lua_cache_fn w key1 key2 val ttl_arg limit_arg)"


text \<open>The first block of the script: the write of the entry.\<close>

definition write_entry :: "world \<Rightarrow> string \<Rightarrow> bytes \<Rightarrow> int \<Rightarrow> world" where
  "write_entry w k v t = (if t > 0 then redis_setex w k t v else redis_set w k v)"

section \<open>The cache facade: \<open>inner\<close>\<close>

text \<open>
  \<open>client.get\<close>: \<open>None\<close> for an absent key, the payload for a string, WRONGTYPE for a
  sorted set. A command that raises is not among those the server has run.
\<close>

definition client_get :: "world \<Rightarrow> string \<Rightarrow> (exn + bytes option) \<times> world" where
  "client_get w k =
     (case down w of
        Some e \<Rightarrow> (Inl e, w)
      | None \<Rightarrow>
          (case lookup w k of
             Some (ZSet _) \<Rightarrow> (Inl ResponseError, w)
           | Some (Str v _) \<Rightarrow> (Inr (Some v), log (GET k) w)
           | None \<Rightarrow> (Inr None, log (GET k) w)))"

text \<open>Calling the wrapped function; the call is recorded.\<close>

definition call_fn ::
  "pyfunction \<Rightarrow> world \<Rightarrow> pyval list \<Rightarrow> pydict \<Rightarrow> (exn + pyval) \<times> world" where
  "call_fn fn w args kwargs =
     (fn_body fn args kwargs, w\<lparr>invoked := invoked w @ [(fn_qualname fn, args, kwargs)]\<rparr>)"

text \<open>\<open>not result\<close> on what \<open>client.get\<close> returns: true of \<open>None\<close> and of \<open>b''\<close>.\<close>

definition falsy :: "bytes option \<Rightarrow> bool" where
  "falsy result = (case result of None \<Rightarrow> True | Some b \<Rightarrow> b = [])"

definition inner ::
  "cache_decorator \<Rightarrow> world \<Rightarrow> pyval list \<Rightarrow> pydict \<Rightarrow> (exn + pyval) \<times> world" where
  "inner self w args kwargs =
     (case get_key self args kwargs of
        Inl e \<Rightarrow> (Inl e, w)
      | Inr key \<Rightarrow>
          (case client_get w key of
             (Inl e, w1) \<Rightarrow>
               (if fallback_exceptions self e
                then call_fn (original_fn self) w1 args kwargs
                else (Inl e, w1))
           | (Inr result, w1) \<Rightarrow>
               (case (if falsy result then None else result) of
                  None \<Rightarrow>
                    (case call_fn (original_fn self) w1 args kwargs of
                       (Inl e, w2) \<Rightarrow> (Inl e, w2)
                     | (Inr res, w2) \<Rightarrow>
                         (case serializer self res of
                            Inl e \<Rightarrow> (Inl e, w2)
                          | Inr result_serialized \<Rightarrow>
                              (case get_cache_lua_fn w2 key (keys_key self)
                                      (to_bytes result_serialized) (ttl self) (limit self) of
                                 (Some e, w3) \<Rightarrow> (Inl e, w3)
                               | (None, w3) \<Rightarrow> (Inr res, w3))))
                | Some payload \<Rightarrow>
                    (case deserializer self payload of
                       Inl e \<Rightarrow> (Inl e, w1)
                     | Inr res \<Rightarrow> (Inr res, w1)))))"

section \<open>The batch facade: \<open>RedisCache.mget\<close>\<close>

record redis_cache =
  rc_prefix :: string
  rc_serializer :: "pyval \<Rightarrow> exn + serialized"
  rc_deserializer :: "bytes \<Rightarrow> exn + pyval"
  rc_key_serializer :: "(pyval \<Rightarrow> exn + serialized) option"

text \<open>\<open>RedisCache.cache\<close>: the decorator's configuration.\<close>

definition cache ::
  "redis_cache \<Rightarrow> int \<Rightarrow> int \<Rightarrow> string option \<Rightarrow> (exn \<Rightarrow> bool) \<Rightarrow> cache_config" where
  "cache self ttl_arg limit_arg namespace_arg fallback =
     \<lparr>prefix = rc_prefix self, serializer = rc_serializer self,
      deserializer = rc_deserializer self, key_serializer = rc_key_serializer self,
      ttl = ttl_arg, limit = limit_arg, namespace = namespace_arg,
      fallback_exceptions = fallback\<rparr>"

text \<open>
  One request of a batch: the decorated function (its \<open>instance\<close>) and the optional
  \<open>args\<close> and \<open>kwargs\<close> entries.
\<close>

record fn_with_args =
  req_fn :: cache_decorator
  req_args :: "pyval list option"
  req_kwargs :: "pydict option"

definition args_of :: "fn_with_args \<Rightarrow> pyval list" where
  "args_of r = (case req_args r of Some a \<Rightarrow> a | None \<Rightarrow> [])"

definition kwargs_of :: "fn_with_args \<Rightarrow> pydict" where
  "kwargs_of r = (case req_kwargs r of Some k \<Rightarrow> k | None \<Rightarrow> [])"

fun mget_keys :: "fn_with_args list \<Rightarrow> exn + string list" where
  "mget_keys [] = Inr []"
| "mget_keys (r # rs) =
     (case get_key (req_fn r) (args_of r) (kwargs_of r) of
        Inl e \<Rightarrow> Inl e
      | Inr k \<Rightarrow> (case mget_keys rs of Inl e \<Rightarrow> Inl e | Inr ks \<Rightarrow> Inr (k # ks)))"

text \<open>
  \<open>client.mget(*keys)\<close>: one slot per key, \<open>None\<close> where the key holds no string. With
  no key at all the call lacks its required argument and raises TypeError before anything
  is sent.
\<close>

definition mget_slot :: "world \<Rightarrow> string \<Rightarrow> bytes option" where
  "mget_slot w k = (case lookup w k of Some (Str v _) \<Rightarrow> Some v | _ \<Rightarrow> None)"

definition client_mget :: "world \<Rightarrow> string list \<Rightarrow> (exn + bytes option list) \<times> world" where
  "client_mget w ks =
     (if ks = [] then (Inl TypeError, w)
      else case down w of
        Some e \<Rightarrow> (Inl e, w)
      | None \<Rightarrow> (Inr (map (mget_slot w) ks), log (MGET ks) w))"

text \<open>A script call buffered on the pipeline: its keys and arguments.\<close>

type_synonym queued = "string \<times> string \<times> bytes \<times> int \<times> int"

text \<open>
  The loop over \<open>enumerate(results)\<close>. Indexing the requests or the keys past their end
  raises IndexError.
\<close>

fun mget_loop ::
  "redis_cache \<Rightarrow> fn_with_args list \<Rightarrow> string list \<Rightarrow> nat \<Rightarrow> bytes option list \<Rightarrow> world \<Rightarrow>
   queued list \<Rightarrow> pyval list \<Rightarrow> (exn + (pyval list \<times> queued list)) \<times> world" where
  "mget_loop self fns_with_args keys i [] w pipeline deserialized_results =
     (Inr (deserialized_results, pipeline), w)"
| "mget_loop self fns_with_args keys i (result # rest) w pipeline deserialized_results =
     (case result of
        None \<Rightarrow>
          (if i < length fns_with_args \<and> i < length keys then
             (let fn_and_args = fns_with_args ! i;
                  instance = req_fn fn_and_args
              in case call_fn (original_fn instance) w (args_of fn_and_args) (kwargs_of fn_and_args) of
                   (Inl e, w1) \<Rightarrow> (Inl e, w1)
                 | (Inr res, w1) \<Rightarrow>
                     (case rc_serializer self res of
                        Inl e \<Rightarrow> (Inl e, w1)
                      | Inr result_serialized \<Rightarrow>
                          mget_loop self fns_with_args keys (Suc i) rest w1
                            (pipeline @ [(keys ! i, keys_key instance, to_bytes result_serialized,
                                          ttl instance, limit instance)])
                            (deserialized_results @ [res])))
           else (Inl IndexError, w))
      | Some payload \<Rightarrow>
          (case rc_deserializer self payload of
             Inl e \<Rightarrow> (Inl e, w)
           | Inr res \<Rightarrow>
               mget_loop self fns_with_args keys (Suc i) rest w pipeline
                 (deserialized_results @ [res])))"

text \<open>
  \<open>pipeline.execute()\<close>: the buffered calls run in order, each at its own server time;
  every one runs, and the first error is raised afterwards.
\<close>

definition advance :: "nat \<Rightarrow> nat \<times> nat \<Rightarrow> nat \<times> nat" where
  "advance us t =
     ((fst t * 1000000 + snd t + us) div 1000000, (fst t * 1000000 + snd t + us) mod 1000000)"

definition next_script_time :: "world \<Rightarrow> world" where
  "next_script_time w =
     (case ticks w of
        [] \<Rightarrow> w
      | us # later \<Rightarrow> w\<lparr>clock := advance us (clock w), ticks := later\<rparr>)"

fun run_queued :: "queued list \<Rightarrow> world \<Rightarrow> exn option \<times> world" where
  "run_queued [] w = (None, w)"
| "run_queued ((key1, key2, val, ttl_arg, limit_arg) # rest) w =
     (case lua_cache_fn (next_script_time w) key1 key2 val ttl_arg limit_arg of
        (err, w1) \<Rightarrow>
          (case run_queued rest w1 of
             (err', w2) \<Rightarrow> ((case err of Some e \<Rightarrow> Some e | None \<Rightarrow> err'), w2)))"

definition pipeline_execute :: "queued list \<Rightarrow> world \<Rightarrow> exn option \<times> world" where
  "pipeline_execute pipeline w =
     (case down w of Some e \<Rightarrow> (Some e, w) | None \<Rightarrow> run_queued pipeline w)"

definition mget ::
  "redis_cache \<Rightarrow> world \<Rightarrow> fn_with_args list \<Rightarrow> (exn + pyval list) \<times> world" where
  "mget self w fns_with_args =
     (case mget_keys fns_with_args of
        Inl e \<Rightarrow> (Inl e, w)
      | Inr keys \<Rightarrow>
          (case client_mget w keys of
             (Inl e, w1) \<Rightarrow> (Inl e, w1)
           | (Inr results, w1) \<Rightarrow>
               (case mget_loop self fns_with_args keys 0 results w1 [] [] of
                  (Inl e, w2) \<Rightarrow> (Inl e, w2)
                | (Inr (deserialized_results, pipeline), w2) \<Rightarrow>
                    (if pipeline \<noteq> [] then
                       (case pipeline_execute pipeline w2 of
                          (Some e, w3) \<Rightarrow> (Inl e, w3)
                        | (None, w3) \<Rightarrow> (Inr deserialized_results, w3))
                     else (Inr deserialized_results, w2)))))"


section \<open>Sequences of executions and the eviction index\<close>

text \<open>The members of the sorted set at a key, lowest score first.\<close>

definition index_members :: "world \<Rightarrow> string \<Rightarrow> string list" where
  "index_members w k = (case lookup w k of Some (ZSet zs) \<Rightarrow> map snd zs | _ \<Rightarrow> [])"

text \<open>
  One execution of the script under a namespace: the entry key, the serialized value,
  the ttl and the server time at which it runs. \<open>execute_all\<close> runs a sequence of them
  against one index key with one size limit.
\<close>

type_synonym execution = "string \<times> bytes \<times> int \<times> (nat \<times> nat)"

fun execute_all :: "world \<Rightarrow> string \<Rightarrow> int \<Rightarrow> execution list \<Rightarrow> world" where
  "execute_all w index_key size_limit [] = w"
| "execute_all w index_key size_limit ((entry_key, val, ttl_arg, now) # rest) =
     execute_all (snd (lua_cache_fn (w\<lparr>clock := now\<rparr>) entry_key index_key val ttl_arg size_limit))
       index_key size_limit rest"

text \<open>
  A key that is in the store; with \<open>lasting\<close>, one whose entry also carries no deadline.
  Without \<open>lasting\<close> an entry past its deadline still counts: it was written and never
  deleted, although no command sees it any more.
\<close>

definition retained :: "bool \<Rightarrow> world \<Rightarrow> string \<Rightarrow> bool" where
  "retained lasting w k =
     (case store w k of None \<Rightarrow> False | Some (Str _ (Some _)) \<Rightarrow> \<not> lasting | _ \<Rightarrow> True)"

definition index_retained :: "bool \<Rightarrow> world \<Rightarrow> string \<Rightarrow> bool" where
  "index_retained lasting w index_key =
     (case store w index_key of
        Some (ZSet zs) \<Rightarrow> list_all (\<lambda>e. retained lasting w (snd e)) zs
      | _ \<Rightarrow> True)"

section \<open>Example instances\<close>

definition add_signature :: signature where
  "add_signature = [(''a'', POSITIONAL_OR_KEYWORD), (''b'', POSITIONAL_OR_KEYWORD)]"

definition add_body :: "pyval list \<Rightarrow> pydict \<Rightarrow> exn + pyval" where
  "add_body args kwargs =
     (case get_args add_signature args kwargs of
        Inr [(_, VInt x), (_, VInt y)] \<Rightarrow> Inr (VInt (x + y))
      | _ \<Rightarrow> Inl TypeError)"

definition add_fn :: pyfunction where
  "add_fn = \<lparr>fn_module = ''m'', fn_qualname = ''add'', fn_signature = add_signature,
             fn_body = add_body\<rparr>"

definition echo_fn :: pyfunction where
  "echo_fn = \<lparr>fn_module = ''m'', fn_qualname = ''echo'',
              fn_signature = [(''x'', POSITIONAL_OR_KEYWORD)],
              fn_body = (\<lambda>args kwargs. case args of [x] \<Rightarrow> Inr x | _ \<Rightarrow> Inl TypeError)\<rparr>"

text \<open>
  Two codecs a caller can plug in: \<open>str.encode('latin-1')\<close> with
  \<open>bytes.decode('latin-1')\<close>, and compact JSON read back as text.
\<close>

definition encode_latin1 :: "pyval \<Rightarrow> exn + serialized" where
  "encode_latin1 v = (case v of VStr s \<Rightarrow> Inr (SBytes s) | _ \<Rightarrow> Inl AttributeError)"

definition decode_latin1 :: "bytes \<Rightarrow> exn + pyval" where
  "decode_latin1 b = Inr (VStr b)"

definition json_cache :: redis_cache where
  "json_cache = \<lparr>rc_prefix = ''rc'', rc_serializer = compact_dump,
                 rc_deserializer = decode_latin1, rc_key_serializer = None\<rparr>"

definition text_cache :: redis_cache where
  "text_cache = \<lparr>rc_prefix = ''rc'', rc_serializer = encode_latin1,
                 rc_deserializer = decode_latin1, rc_key_serializer = Some compact_dump\<rparr>"

definition empty_world :: world where
  "empty_world =
     \<lparr>store = (\<lambda>k. None), clock = (0, 0), down = None, sent = [], invoked = [], ticks = []\<rparr>"

definition cached_add :: cache_decorator where
  "cached_add = decorator_call (cache json_cache 0 0 None (\<lambda>e. False)) add_fn"

definition cached_echo :: cache_decorator where
  "cached_echo = decorator_call (cache text_cache 0 0 None (\<lambda>e. False)) echo_fn"

text \<open>
  Two key serializers a caller can plug in for \<open>echo(x)\<close>, where \<open>x\<close> is a text: the
  argument itself, \<open>lambda d: d['x']\<close>, and its bytes,
  \<open>lambda d: d['x'].encode('latin-1')\<close>.
\<close>

definition x_text :: "pyval \<Rightarrow> exn + serialized" where
  "x_text d =
     (case d of
        VDict kvs \<Rightarrow> (case map_of kvs ''x'' of Some (VStr s) \<Rightarrow> Inr (SStr s) | _ \<Rightarrow> Inl TypeError)
      | _ \<Rightarrow> Inl TypeError)"

definition x_bytes :: "pyval \<Rightarrow> exn + serialized" where
  "x_bytes d =
     (case d of
        VDict kvs \<Rightarrow> (case map_of kvs ''x'' of Some (VStr s) \<Rightarrow> Inr (SBytes s) | _ \<Rightarrow> Inl TypeError)
      | _ \<Rightarrow> Inl TypeError)"

definition echo_by_text :: cache_decorator where
  "echo_by_text =
     decorator_call
       (cache (text_cache\<lparr>rc_key_serializer := Some x_text\<rparr>) 0 0 (Some ''names'') (\<lambda>e. False))
       echo_fn"

definition echo_by_bytes :: cache_decorator where
  "echo_by_bytes =
     decorator_call
       (cache (text_cache\<lparr>rc_key_serializer := Some x_bytes\<rparr>) 0 0 (Some ''names'') (\<lambda>e. False))
       echo_fn"

definition fallback_add :: cache_decorator where
  "fallback_add =
     decorator_call (cache json_cache 0 0 None (\<lambda>e. e = ConnectionError \<or> e = TimeoutError)) add_fn"

section \<open>Properties of the argument normalizer\<close>

lemma map_of_dict_set: "map_of (dict_set d k v) = (map_of d)(k \<mapsto> v)"
  by (induction d) (auto simp: fun_eq_iff)

lemma keys_dict_set: "fst ` set (dict_set d k v) = insert k (fst ` set d)"
proof (induction d)
  case Nil
  show ?case by simp
next
  case (Cons a d)
  obtain k' v' where a: "a = (k', v')" by (cases a)
  show ?case using Cons a by (cases "k' = k") auto
qed

lemma map_of_None_keys: "(map_of d k = None) = (k \<notin> fst ` set d)"
  by (simp add: map_of_eq_None_iff)

lemma positional_loop_ok:
  assumes "case var of [] \<Rightarrow> True
           | n # _ \<Rightarrow> n \<notin> set std \<and> (map_of parsed n = None \<or> (\<exists>xs. map_of parsed n = Some (VList xs)))"
    and "distinct std"
  shows "\<exists>parsed'. positional_loop std var index args parsed = Inr parsed'
           \<and> fst ` set parsed' \<subseteq> fst ` set parsed \<union> set std \<union> set (take 1 var)
           \<and> (\<forall>j. index + j < length std \<and> j < length args
                  \<longrightarrow> map_of parsed' (std ! (index + j)) = Some (args ! j))
           \<and> (\<forall>k. k \<notin> set (drop index std) \<and> k \<notin> set (take 1 var) \<longrightarrow> map_of parsed' k = map_of parsed k)"
  using assms
proof (induction args arbitrary: index parsed)
  case Nil
  then show ?case by auto
next
  case (Cons arg rest)
  show ?case
  proof (cases "index < length std")
    case True
    let ?p1 = "dict_set parsed (std ! index) arg"
    have inv: "case var of [] \<Rightarrow> True
           | n # _ \<Rightarrow> n \<notin> set std \<and> (map_of ?p1 n = None \<or> (\<exists>xs. map_of ?p1 n = Some (VList xs)))"
      using Cons.prems(1) True by (cases var) (auto simp: map_of_dict_set)
    from Cons.IH[OF inv Cons.prems(2), of "Suc index"]
    obtain parsed' where r: "positional_loop std var (Suc index) rest ?p1 = Inr parsed'"
      and keys: "fst ` set parsed' \<subseteq> fst ` set ?p1 \<union> set std \<union> set (take 1 var)"
      and pos: "\<forall>j. Suc index + j < length std \<and> j < length rest
                  \<longrightarrow> map_of parsed' (std ! (Suc index + j)) = Some (rest ! j)"
      and frame: "\<forall>k. k \<notin> set (drop (Suc index) std) \<and> k \<notin> set (take 1 var) \<longrightarrow> map_of parsed' k = map_of ?p1 k"
      by blast
    have notin: "std ! index \<notin> set (drop (Suc index) std)"
      using Cons.prems(2) True
      by (metis Cons_nth_drop_Suc distinct.simps(2) distinct_drop)
    have notvar: "std ! index \<notin> set (take 1 var)"
      using Cons.prems(1) True by (cases var) auto
    have here: "map_of parsed' (std ! index) = Some arg"
      using frame notin notvar by (simp add: map_of_dict_set)
    have "positional_loop std var index (arg # rest) parsed = Inr parsed'"
      using True r by simp
    moreover have "fst ` set parsed' \<subseteq> fst ` set parsed \<union> set std \<union> set (take 1 var)"
      using keys True by (auto simp: keys_dict_set)
    moreover have "\<forall>j. index + j < length std \<and> j < length (arg # rest)
                  \<longrightarrow> map_of parsed' (std ! (index + j)) = Some ((arg # rest) ! j)"
    proof (intro allI impI)
      fix j assume j: "index + j < length std \<and> j < length (arg # rest)"
      show "map_of parsed' (std ! (index + j)) = Some ((arg # rest) ! j)"
      proof (cases j)
        case 0
        then show ?thesis using here by simp
      next
        case (Suc j')
        then show ?thesis using pos j by simp
      qed
    qed
    moreover have "\<forall>k. k \<notin> set (drop index std) \<and> k \<notin> set (take 1 var) \<longrightarrow> map_of parsed' k = map_of parsed k"
    proof (intro allI impI)
      fix k assume k: "k \<notin> set (drop index std) \<and> k \<notin> set (take 1 var)"
      have d: "drop index std = std ! index # drop (Suc index) std"
        using True by (simp add: Cons_nth_drop_Suc)
      from k d have "k \<noteq> std ! index" "k \<notin> set (drop (Suc index) std)" by auto
      then show "map_of parsed' k = map_of parsed k"
        using frame k by (simp add: map_of_dict_set)
    qed
    ultimately show ?thesis by blast
  next
    case False
    show ?thesis
    proof (cases var)
      case Nil
      from Cons.IH[of parsed "Suc index"] Cons.prems Nil
      obtain parsed' where r: "positional_loop std var (Suc index) rest parsed = Inr parsed'"
        and keys: "fst ` set parsed' \<subseteq> fst ` set parsed \<union> set std \<union> set (take 1 var)"
        and frame: "\<forall>k. k \<notin> set (drop (Suc index) std) \<and> k \<notin> set (take 1 var) \<longrightarrow> map_of parsed' k = map_of parsed k"
        by auto
      show ?thesis using False Nil r keys frame by auto
    next
      case (Cons n var')
      let ?p1 = "if n \<notin> fst ` set parsed then dict_set parsed n (VList []) else parsed"
      have "\<exists>xs. map_of ?p1 n = Some (VList xs)"
      proof (cases "n \<in> fst ` set parsed")
        case True
        then have "map_of parsed n \<noteq> None" by (simp add: map_of_None_keys)
        then show ?thesis using Cons.prems(1) Cons True by auto
      next
        case False
        then show ?thesis by (simp add: map_of_dict_set)
      qed
      then obtain xs where xs: "map_of ?p1 n = Some (VList xs)" by blast
      let ?p2 = "dict_set ?p1 n (VList (xs @ [arg]))"
      have nstd: "n \<notin> set std" using Cons.prems(1) Cons by simp
      have inv: "case var of [] \<Rightarrow> True
           | n # _ \<Rightarrow> n \<notin> set std \<and> (map_of ?p2 n = None \<or> (\<exists>xs. map_of ?p2 n = Some (VList xs)))"
        using Cons nstd by (simp add: map_of_dict_set)
      from Cons.IH[OF inv Cons.prems(2), of "Suc index"]
      obtain parsed' where r: "positional_loop std var (Suc index) rest ?p2 = Inr parsed'"
        and keys: "fst ` set parsed' \<subseteq> fst ` set ?p2 \<union> set std \<union> set (take 1 var)"
        and frame: "\<forall>k. k \<notin> set (drop (Suc index) std) \<and> k \<notin> set (take 1 var) \<longrightarrow> map_of parsed' k = map_of ?p2 k"
        by blast
      have "positional_loop std var index (arg # rest) parsed = Inr parsed'"
        using False Cons xs r by (simp add: Let_def)
      moreover have "fst ` set parsed' \<subseteq> fst ` set parsed \<union> set std \<union> set (take 1 var)"
        using keys Cons by (auto simp: keys_dict_set split: if_splits)
      moreover have "\<forall>k. k \<notin> set (drop index std) \<and> k \<notin> set (take 1 var) \<longrightarrow> map_of parsed' k = map_of parsed k"
        using frame False Cons by (auto simp: map_of_dict_set)
      ultimately show ?thesis using False by auto
    qed
  qed
qed

lemma kwargs_loop_ok:
  assumes "case varkw of [] \<Rightarrow> True
           | n # _ \<Rightarrow> n \<notin> allowed \<and> (map_of parsed n = None \<or> (\<exists>d. map_of parsed n = Some (VDict d)))"
    and "distinct (map fst kwargs)"
  shows "\<exists>parsed'. kwargs_loop allowed varkw kwargs parsed = Inr parsed'
           \<and> (\<forall>k. k \<in> allowed \<longrightarrow> map_of parsed' k =
                  (case map_of kwargs k of Some v \<Rightarrow> Some v | None \<Rightarrow> map_of parsed k))"
  using assms
proof (induction kwargs arbitrary: parsed)
  case Nil
  then show ?case by simp
next
  case (Cons kv rest)
  obtain key val where kv: "kv = (key, val)" by (cases kv)
  have drest: "distinct (map fst rest)" and knew: "map_of rest key = None"
    using Cons.prems(2) kv by (auto simp: map_of_None_keys)
  show ?case
  proof (cases "key \<in> allowed")
    case True
    let ?p1 = "dict_set parsed key val"
    have inv: "case varkw of [] \<Rightarrow> True
           | n # _ \<Rightarrow> n \<notin> allowed \<and> (map_of ?p1 n = None \<or> (\<exists>d. map_of ?p1 n = Some (VDict d)))"
      using Cons.prems(1) True by (cases varkw) (auto simp: map_of_dict_set)
    from Cons.IH[OF inv drest]
    obtain parsed' where r: "kwargs_loop allowed varkw rest ?p1 = Inr parsed'"
      and b: "\<forall>k. k \<in> allowed \<longrightarrow> map_of parsed' k =
                  (case map_of rest k of Some v \<Rightarrow> Some v | None \<Rightarrow> map_of ?p1 k)"
      by blast
    have "kwargs_loop allowed varkw (kv # rest) parsed = Inr parsed'"
      using True r kv by simp
    moreover have "\<forall>k. k \<in> allowed \<longrightarrow> map_of parsed' k =
                  (case map_of (kv # rest) k of Some v \<Rightarrow> Some v | None \<Rightarrow> map_of parsed k)"
      using b knew kv by (auto simp: map_of_dict_set split: option.splits)
    ultimately show ?thesis by blast
  next
    case False
    show ?thesis
    proof (cases varkw)
      case Nil
      from Cons.IH[of parsed] Nil drest
      obtain parsed' where r: "kwargs_loop allowed varkw rest parsed = Inr parsed'"
        and b: "\<forall>k. k \<in> allowed \<longrightarrow> map_of parsed' k =
                  (case map_of rest k of Some v \<Rightarrow> Some v | None \<Rightarrow> map_of parsed k)"
        by auto
      have "kwargs_loop allowed varkw (kv # rest) parsed = Inr parsed'"
        using False Nil r kv by simp
      moreover have "\<forall>k. k \<in> allowed \<longrightarrow> map_of parsed' k =
                  (case map_of (kv # rest) k of Some v \<Rightarrow> Some v | None \<Rightarrow> map_of parsed k)"
        using b False kv by auto
      ultimately show ?thesis by blast
    next
      case (Cons n varkw')
      note vk = this
      let ?p1 = "if n \<notin> fst ` set parsed then dict_set parsed n (VDict []) else parsed"
      have nall: "n \<notin> allowed" using Cons.prems(1) vk by simp
      have "\<exists>d. map_of ?p1 n = Some (VDict d)"
      proof (cases "n \<in> fst ` set parsed")
        case True
        then have "map_of parsed n \<noteq> None" by (simp add: map_of_None_keys)
        then show ?thesis using Cons.prems(1) vk True by auto
      next
        case False
        then show ?thesis by (simp add: map_of_dict_set)
      qed
      then obtain d where d: "map_of ?p1 n = Some (VDict d)" by blast
      let ?p2 = "dict_set ?p1 n (VDict (dict_set d key val))"
      have inv: "case varkw of [] \<Rightarrow> True
           | n # _ \<Rightarrow> n \<notin> allowed \<and> (map_of ?p2 n = None \<or> (\<exists>d. map_of ?p2 n = Some (VDict d)))"
        using vk nall by (simp add: map_of_dict_set)
      from Cons.IH[OF inv drest]
      obtain parsed' where r: "kwargs_loop allowed varkw rest ?p2 = Inr parsed'"
        and b: "\<forall>k. k \<in> allowed \<longrightarrow> map_of parsed' k =
                  (case map_of rest k of Some v \<Rightarrow> Some v | None \<Rightarrow> map_of ?p2 k)"
        by blast
      have "kwargs_loop allowed varkw (kv # rest) parsed = Inr parsed'"
        using False vk d r kv by (simp add: Let_def)
      moreover have "\<forall>k. k \<in> allowed \<longrightarrow> map_of parsed' k =
                  (case map_of (kv # rest) k of Some v \<Rightarrow> Some v | None \<Rightarrow> map_of parsed k)"
        using b False kv nall by (auto simp: map_of_dict_set split: option.splits)
      ultimately show ?thesis by blast
    qed
  qed
qed

lemma filter_names_disjoint:
  assumes "distinct (map fst arg_sig)" and "\<And>p. \<not> (P p \<and> Q p)"
  shows "set (map fst (filter P arg_sig)) \<inter> set (map fst (filter Q arg_sig)) = {}"
  using assms(1)
proof (induction arg_sig)
  case Nil
  show ?case by simp
next
  case (Cons a rest)
  then show ?case using assms(2)[of a] by (auto simp: image_iff)
qed

lemma distinct_filter_names:
  "distinct (map fst arg_sig) \<Longrightarrow> distinct (map fst (filter P arg_sig))"
  by (simp add: distinct_map_filter)

lemma get_args_ok:
  assumes wf: "wf_signature arg_sig" and dk: "distinct (map fst kwargs)"
  shows "\<exists>pos parsed.
           positional_loop (standard_args arg_sig) (variable_args arg_sig) 0 args [] = Inr pos
         \<and> get_args arg_sig args kwargs = Inr parsed
         \<and> (\<forall>j. j < length (standard_args arg_sig) \<and> j < length args
               \<longrightarrow> map_of pos (standard_args arg_sig ! j) = Some (args ! j))
         \<and> (\<forall>k. k \<in> allowed_kwargs arg_sig \<longrightarrow> map_of parsed k =
               (case map_of kwargs k of Some v \<Rightarrow> Some v | None \<Rightarrow> map_of pos k))"
proof -
  let ?std = "standard_args arg_sig" and ?var = "variable_args arg_sig"
  let ?vkw = "variable_kwargs arg_sig" and ?al = "allowed_kwargs arg_sig"
  have d: "distinct (map fst arg_sig)" using wf by (simp add: wf_signature_def)
  have dstd: "distinct ?std"
    unfolding standard_args_def using d by (rule distinct_filter_names)
  have sv: "set ?std \<inter> set ?var = {}"
    unfolding standard_args_def variable_args_def
    by (rule filter_names_disjoint[OF d]) auto
  have sk: "set ?std \<inter> set ?vkw = {}"
    unfolding standard_args_def variable_kwargs_def
    by (rule filter_names_disjoint[OF d]) auto
  have vk: "set ?var \<inter> set ?vkw = {}"
    unfolding variable_args_def variable_kwargs_def
    by (rule filter_names_disjoint[OF d]) auto
  have ak: "?al \<inter> set ?vkw = {}"
    unfolding allowed_kwargs_def variable_kwargs_def
    by (rule filter_names_disjoint[OF d]) auto
  have inv0: "case ?var of [] \<Rightarrow> True
           | n # _ \<Rightarrow> n \<notin> set ?std \<and> (map_of [] n = None \<or> (\<exists>xs. map_of [] n = Some (VList xs)))"
    using sv by (cases ?var) auto
  from positional_loop_ok[OF inv0 dstd, of 0 args]
  obtain pos where p: "positional_loop ?std ?var 0 args [] = Inr pos"
    and keys: "fst ` set pos \<subseteq> set ?std \<union> set (take 1 ?var)"
    and bind: "\<forall>j. j < length ?std \<and> j < length args \<longrightarrow> map_of pos (?std ! j) = Some (args ! j)"
    by auto
  let ?start = "if ?std \<noteq> [] \<or> ?var \<noteq> [] then pos else []"
  have start: "?start = pos" using keys by (cases pos) auto
  have keys': "fst ` set ?start \<subseteq> set ?std \<union> set (take 1 ?var)"
    using keys by auto
  have "set (take 1 ?var) \<subseteq> set ?var" by (rule set_take_subset)
  then have none: "\<And>n. n \<in> set ?vkw \<Longrightarrow> map_of ?start n = None"
    using keys' sk vk unfolding map_of_None_keys by blast
  have inv1: "case ?vkw of [] \<Rightarrow> True
           | n # _ \<Rightarrow> n \<notin> ?al \<and> (map_of ?start n = None \<or> (\<exists>d. map_of ?start n = Some (VDict d)))"
  proof (cases ?vkw)
    case Nil
    then show ?thesis by simp
  next
    case (Cons n rest)
    then have "n \<in> set ?vkw" by simp
    then show ?thesis using Cons ak none[of n] by auto
  qed
  from kwargs_loop_ok[OF inv1 dk]
  obtain parsed where k: "kwargs_loop ?al ?vkw kwargs ?start = Inr parsed"
    and kb: "\<forall>k. k \<in> ?al \<longrightarrow> map_of parsed k =
                  (case map_of kwargs k of Some v \<Rightarrow> Some v | None \<Rightarrow> map_of ?start k)"
    by blast
  have ga: "get_args arg_sig args kwargs = Inr parsed"
  proof (cases "kwargs = []")
    case True
    then show ?thesis using k p by (auto simp: get_args_def)
  next
    case False
    then show ?thesis using k p by (auto simp: get_args_def)
  qed
  show ?thesis using p ga bind kb unfolding start by (intro exI conjI) auto
qed

text \<open>
  C9. When an ordinary parameter is given a value by position and a value by name in the
  same call, the normalized map binds it to the named value: with the positional values
  alone the parameter is bound to the positional value, and the loop over the named
  values, which runs afterwards, replaces that binding.
\<close>

theorem named_value_overwrites_positional:
  assumes "wf_signature arg_sig" and "distinct (map fst kwargs)"
    and "index < length (standard_args arg_sig)" and "index < length args"
    and "(standard_args arg_sig ! index, v) \<in> set kwargs"
  shows "\<exists>pos parsed.
           get_args arg_sig args [] = Inr pos
         \<and> map_of pos (standard_args arg_sig ! index) = Some (args ! index)
         \<and> get_args arg_sig args kwargs = Inr parsed
         \<and> map_of parsed (standard_args arg_sig ! index) = Some v"
proof -
  let ?p = "standard_args arg_sig ! index"
  from get_args_ok[OF assms(1,2), of args]
  obtain pos parsed where
    p: "positional_loop (standard_args arg_sig) (variable_args arg_sig) 0 args [] = Inr pos"
    and ga: "get_args arg_sig args kwargs = Inr parsed"
    and bind: "\<forall>j. j < length (standard_args arg_sig) \<and> j < length args
               \<longrightarrow> map_of pos (standard_args arg_sig ! j) = Some (args ! j)"
    and kb: "\<forall>k. k \<in> allowed_kwargs arg_sig \<longrightarrow> map_of parsed k =
               (case map_of kwargs k of Some v \<Rightarrow> Some v | None \<Rightarrow> map_of pos k)"
    by blast
  have std: "standard_args arg_sig \<noteq> []" using assms(3) by auto
  have g0: "get_args arg_sig args [] = Inr pos"
    using p std by (simp add: get_args_def)
  have "?p \<in> set (standard_args arg_sig)" using assms(3) by simp
  then have al: "?p \<in> allowed_kwargs arg_sig"
    by (auto simp: standard_args_def allowed_kwargs_def)
  have "map_of kwargs ?p = Some v"
    using assms(2,5) by (rule map_of_is_SomeI)
  then have "map_of parsed ?p = Some v" using kb al by simp
  then show ?thesis using g0 ga bind assms(3,4) by blast
qed

theorem named_value_overwrites_positional_witness:
  "\<exists>pos parsed.
     get_args [(''a'', POSITIONAL_OR_KEYWORD), (''b'', POSITIONAL_OR_KEYWORD)]
       [VInt 1, VInt 2] [] = Inr pos
   \<and> map_of pos ''b'' = Some (VInt 2)
   \<and> get_args [(''a'', POSITIONAL_OR_KEYWORD), (''b'', POSITIONAL_OR_KEYWORD)]
       [VInt 1, VInt 2] [(''b'', VInt 5)] = Inr parsed
   \<and> map_of parsed ''b'' = Some (VInt 5)"
  using named_value_overwrites_positional
    [of "[(''a'', POSITIONAL_OR_KEYWORD), (''b'', POSITIONAL_OR_KEYWORD)]"
        "[(''b'', VInt 5)]" 1 "[VInt 1, VInt 2]" "VInt 5"]
  by (simp add: wf_signature_def standard_args_def)


section \<open>Properties of the store and of the script\<close>

lemma log_simps [simp]:
  "store (log c w) = store w" "clock (log c w) = clock w" "down (log c w) = down w"
  "invoked (log c w) = invoked w" "sent (log c w) = sent w @ [c]" "ticks (log c w) = ticks w"
  by (simp_all add: log_def)

lemma now_us_log [simp]: "now_us (log c w) = now_us w"
  by (simp add: now_us_def)

lemma lookup_cong: "store w = store w' \<Longrightarrow> clock w = clock w' \<Longrightarrow> lookup w k = lookup w' k"
  by (auto simp: lookup_def now_us_def split: option.splits entry.splits)

lemma lookup_log [simp]: "lookup (log c w) k = lookup w k"
  by (rule lookup_cong) simp_all

lemma put_zset_simps [simp]:
  "store (put_zset w k zs) = (store w)(k := if zs = [] then None else Some (ZSet zs))"
  "clock (put_zset w k zs) = clock w" "down (put_zset w k zs) = down w"
  "invoked (put_zset w k zs) = invoked w" "sent (put_zset w k zs) = sent w"
  "ticks (put_zset w k zs) = ticks w"
  by (simp_all add: put_zset_def)

lemma lookup_ZSet: "lookup w k = Some (ZSet zs) \<longleftrightarrow> store w k = Some (ZSet zs)"
  by (auto simp: lookup_def split: option.splits entry.splits if_splits)

lemma lookup_upd_ZSet [simp]:
  "lookup (w\<lparr>store := (store w)(k \<mapsto> ZSet zs)\<rparr>) k = Some (ZSet zs)"
  by (simp add: lookup_def)

lemma stale_keys_flat [simp]: "stale_keys_of (flat_reply zs) = map snd zs"
  by (induction zs) auto

lemma flat_reply_Nil [simp]: "flat_reply zs = [] \<longleftrightarrow> zs = []"
  by (cases zs) auto

lemma set_zinsert [simp]: "set (zinsert x zs) = insert x (set zs)"
  by (induction zs) auto

lemma length_zinsert [simp]: "length (zinsert x zs) = Suc (length zs)"
  by (induction zs) auto

lemma zinsert_not_Nil [simp]: "zinsert x zs \<noteq> []"
  by (cases zs) auto

lemma write_entry_simps [simp]:
  "store (write_entry w k v t) =
     (store w)(k \<mapsto> Str v (if t > 0 then Some (now_us w + nat t * 1000000) else None))"
  "clock (write_entry w k v t) = clock w" "down (write_entry w k v t) = down w"
  "invoked (write_entry w k v t) = invoked w" "ticks (write_entry w k v t) = ticks w"
  "sent (write_entry w k v t) = sent w @ [if t > 0 then SETEX k t v else SET k v]"
  by (auto simp: write_entry_def redis_setex_def redis_set_def)

lemma lua_cache_fn_alt:
  "lua_cache_fn w k1 k2 v t L =
     (if L > 0 then evict (write_entry w k1 v t) k1 k2 L else (None, write_entry w k1 v t))"
  by (simp add: lua_cache_fn_def write_entry_def Let_def)

text \<open>What a run of the eviction block leaves, whatever its outcome.\<close>

lemma evict_frame:
  assumes "evict w k1 k2 L = (r, w')"
  shows "clock w' = clock w \<and> down w' = down w \<and> invoked w' = invoked w
       \<and> (\<exists>cmds. sent w' = sent w @ TIME # cmds)"
  using assms
  by (auto simp: evict_def redis_time_def redis_zadd_def redis_zcount_def redis_zpopmin_def
      redis_zrem_def redis_del_def Let_def
      split: sum.splits option.splits entry.splits if_splits prod.splits)

lemma lookup_write_entry [simp]:
  "lookup (write_entry w k v t) k =
     Some (Str v (if t > 0 then Some (now_us w + nat t * 1000000) else None))"
  by (simp add: lookup_def now_us_def)

lemma evict_other_keys:
  assumes "evict w k1 k2 L = (r, w')" and "k \<noteq> k2"
  shows "store w' k = store w k \<or> store w' k = None"
  using assms
  by (auto simp: evict_def redis_time_def redis_zadd_def redis_zcount_def redis_zpopmin_def
      redis_zrem_def redis_del_def Let_def
      split: sum.splits option.splits entry.splits if_splits prod.splits)

lemma evict_on_string:
  assumes "lookup w k2 = Some (Str v d)"
  shows "evict w k1 k2 L = (Some ResponseError, log TIME w)"
  using assms by (simp add: evict_def redis_time_def redis_zadd_def)

lemma execute_all_zero_dom: "dom (store w) \<subseteq> dom (store (execute_all w k2 0 calls))"
proof (induction calls arbitrary: w)
  case Nil
  show ?case by simp
next
  case (Cons c calls)
  obtain k v t now where c: "c = (k, v, t, now)" by (cases c)
  let ?w1 = "snd (lua_cache_fn (w\<lparr>clock := now\<rparr>) k k2 v t 0)"
  have "dom (store w) \<subseteq> dom (store ?w1)"
    by (auto simp: lua_cache_fn_alt)
  also have "\<dots> \<subseteq> dom (store (execute_all ?w1 k2 0 calls))" by (rule Cons.IH)
  finally show ?case using c by simp
qed

text \<open>
  C7. An execution with size limit zero runs exactly one command, the write of the entry:
  no \<open>ZADD\<close>, no \<open>ZCOUNT\<close>, no \<open>ZPOPMIN\<close>, \<open>ZREM\<close> or \<open>DEL\<close>. It completes, and the
  store differs from the one before at the entry key only, so the eviction index (a key
  of its own) has the members it had. No sequence of such executions removes a key:
  every key stored before is still stored afterwards, until it expires or is deleted by
  other means.
\<close>

theorem no_index_bookkeeping_without_limit:
  "fst (lua_cache_fn w entry_key index_key val ttl_arg 0) = None
   \<and> sent (snd (lua_cache_fn w entry_key index_key val ttl_arg 0)) =
       sent w @ [if ttl_arg > 0 then SETEX entry_key ttl_arg val else SET entry_key val]
   \<and> store (snd (lua_cache_fn w entry_key index_key val ttl_arg 0)) =
       (store w)(entry_key \<mapsto>
          Str val (if ttl_arg > 0 then Some (now_us w + nat ttl_arg * 1000000) else None))
   \<and> (index_key \<noteq> entry_key \<longrightarrow>
         index_members (snd (lua_cache_fn w entry_key index_key val ttl_arg 0)) index_key =
         index_members w index_key)
   \<and> dom (store w) \<subseteq> dom (store (execute_all w index_key 0 calls))"
proof -
  have r: "lua_cache_fn w entry_key index_key val ttl_arg 0 =
             (None, write_entry w entry_key val ttl_arg)"
    by (simp add: lua_cache_fn_alt)
  have "index_members (write_entry w entry_key val ttl_arg) index_key = index_members w index_key"
    if "index_key \<noteq> entry_key"
    using that
    by (auto simp: index_members_def lookup_def now_us_def split: option.splits entry.splits)
  then show ?thesis
    using execute_all_zero_dom[of w index_key calls] unfolding r by simp
qed

lemma lookup_not_None: "lookup w k \<noteq> None \<Longrightarrow> lookup w k = store w k"
  by (auto simp: lookup_def split: option.splits entry.splits if_splits)

lemma lua_cache_fn_effect:
  assumes "lua_cache_fn w entry_key index_key val ttl_arg size_limit = (r, w')"
  shows "(\<exists>cmds. sent w' =
            sent w @ (if ttl_arg > 0 then SETEX entry_key ttl_arg val else SET entry_key val) # cmds)
       \<and> (store w' entry_key =
             Some (Str val (if ttl_arg > 0 then Some (now_us w + nat ttl_arg * 1000000) else None))
           \<or> (size_limit > 0 \<and> store w' entry_key = None))
       \<and> clock w' = clock w \<and> down w' = down w \<and> invoked w' = invoked w"
proof (cases "size_limit > 0")
  case False
  then have "w' = write_entry w entry_key val ttl_arg"
    using assms by (simp add: lua_cache_fn_alt)
  then show ?thesis by simp
next
  case True
  define w1 where "w1 = write_entry w entry_key val ttl_arg"
  define dl where "dl = (if ttl_arg > 0 then Some (now_us w + nat ttl_arg * 1000000) else None)"
  define cmd where "cmd = (if ttl_arg > 0 then SETEX entry_key ttl_arg val else SET entry_key val)"
  have st1: "store w1 entry_key = Some (Str val dl)"
    and lk1: "lookup w1 entry_key = Some (Str val dl)"
    and sn1: "sent w1 = sent w @ [cmd]"
    and fr1: "clock w1 = clock w" "down w1 = down w" "invoked w1 = invoked w"
    by (simp_all add: w1_def dl_def cmd_def)
  have ev: "evict w1 entry_key index_key size_limit = (r, w')"
    using True assms by (simp add: lua_cache_fn_alt w1_def)
  from evict_frame[OF ev] obtain cmds where "sent w' = sent w1 @ TIME # cmds"
    and fr: "clock w' = clock w1" "down w' = down w1" "invoked w' = invoked w1" by blast
  then have s: "sent w' = sent w @ cmd # TIME # cmds" using sn1 by simp
  have "store w' entry_key = store w1 entry_key \<or> store w' entry_key = None"
  proof (cases "entry_key = index_key")
    case True
    then have "lookup w1 index_key = Some (Str val dl)" using lk1 by simp
    then have "evict w1 entry_key index_key size_limit = (Some ResponseError, log TIME w1)"
      by (rule evict_on_string)
    then have "w' = log TIME w1" using ev by simp
    then show ?thesis by simp
  next
    case False
    then show ?thesis by (rule evict_other_keys[OF ev])
  qed
  then have d: "store w' entry_key = Some (Str val dl) \<or> store w' entry_key = None"
    using st1 by simp
  have "\<exists>cmds. sent w' = sent w @ cmd # cmds" using s by blast
  moreover have "store w' entry_key = Some (Str val dl) \<or> (size_limit > 0 \<and> store w' entry_key = None)"
    using d True by blast
  ultimately show ?thesis using fr fr1 unfolding dl_def cmd_def by simp
qed


text \<open>
  C5. For a ttl that is zero or less, or that the server accepts, the first command of
  the execution writes the value at the entry key: \<open>SETEX\<close> with the ttl when the ttl is
  greater than zero, and \<open>SET\<close>, which carries no expiration, otherwise. After the
  execution the entry key holds that value, with the deadline ttl seconds after the
  server time in the first case and none in the second, unless the eviction of the same
  execution (size limit above zero) has deleted it.
\<close>

theorem entry_written_with_expiration:
  assumes "ttl_arg \<le> 0 \<or> ttl_accepted w ttl_arg"
  shows "(\<exists>cmds. sent (snd (lua_cache_fn w entry_key index_key val ttl_arg size_limit)) =
            sent w @ (if ttl_arg > 0 then SETEX entry_key ttl_arg val else SET entry_key val) # cmds)
       \<and> (store (snd (lua_cache_fn w entry_key index_key val ttl_arg size_limit)) entry_key =
             Some (Str val (if ttl_arg > 0 then Some (now_us w + nat ttl_arg * 1000000) else None))
           \<or> (size_limit > 0
               \<and> store (snd (lua_cache_fn w entry_key index_key val ttl_arg size_limit)) entry_key = None))"
proof -
  obtain r w' where e: "lua_cache_fn w entry_key index_key val ttl_arg size_limit = (r, w')"
    by (cases "lua_cache_fn w entry_key index_key val ttl_arg size_limit")
  show ?thesis using lua_cache_fn_effect[OF e] unfolding e snd_conv by blast
qed

section \<open>Properties of the key codec\<close>

lemma b64_char_in: "n < 64 \<Longrightarrow> b64_char n \<in> set b64_alphabet"
  unfolding b64_char_def by (rule nth_mem) (simp add: b64_alphabet_def)

lemma b64_groups_chars:
  "\<forall>x\<in>set xs. x < 256 \<Longrightarrow> set (b64_groups xs) \<subseteq> insert (CHR ''='') (set b64_alphabet)"
proof (induction xs rule: b64_groups.induct)
  case 1
  show ?case by simp
next
  case (2 a)
  then have "a div 4 < 64" "(a mod 4) * 16 < 64" by auto
  then show ?case by (simp add: b64_char_in)
next
  case (3 a b)
  then have "a div 4 < 64" "(a mod 4) * 16 + b div 16 < 64" "(b mod 16) * 4 < 64" by auto
  then show ?case by (simp add: b64_char_in)
next
  case (4 a b c rest)
  then have "a div 4 < 64" "(a mod 4) * 16 + b div 16 < 64" "(b mod 16) * 4 + c div 64 < 64"
    "c mod 64 < 64" by auto
  moreover have "set (b64_groups rest) \<subseteq> insert (CHR ''='') (set b64_alphabet)"
    using 4 by simp
  ultimately show ?case by (simp add: b64_char_in)
qed

lemma b64encode_no_braces:
  "CHR ''{'' \<notin> set (b64encode data) \<and> CHR ''}'' \<notin> set (b64encode data)"
proof -
  have "set (b64encode data) \<subseteq> insert (CHR ''='') (set b64_alphabet)"
    unfolding b64encode_def by (rule b64_groups_chars) (auto simp: nat_of_char_less_256)
  moreover have "CHR ''{'' \<notin> insert (CHR ''='') (set b64_alphabet)"
    "CHR ''}'' \<notin> insert (CHR ''='') (set b64_alphabet)"
    by (simp_all add: b64_alphabet_def)
  ultimately show ?thesis by blast
qed

lemma cached_add_fields:
  "prefix cached_add = ''rc''" "namespace cached_add = Some ''m.add''"
  "key_serializer cached_add = None" "serializer cached_add = compact_dump"
  "deserializer cached_add = decode_latin1" "ttl cached_add = 0" "limit cached_add = 0"
  "keys_key cached_add = ''{rc:m.add}:keys''" "original_fn cached_add = add_fn"
  by (simp_all add: cached_add_def decorator_call_def cache_def json_cache_def add_fn_def Let_def
      cache_config.extend_def cache_decorator.fields_def get_full_prefix_def format_namespace_def)

lemma add_positional: "get_args add_signature [VInt 1, VInt 2] [] = Inr [(''a'', VInt 1), (''b'', VInt 2)]"
  by code_simp

lemma add_named: "get_args add_signature [] [(''b'', VInt 2), (''a'', VInt 1)] = Inr [(''b'', VInt 2), (''a'', VInt 1)]"
  by code_simp

lemma add_key: "b64encode (encode_utf8 (dumps (VDict [(''a'', VInt 1), (''b'', VInt 2)]))) = ''eyJhIjoxLCJiIjoyfQ==''"
  by code_simp

lemma add_key_swapped: "b64encode (encode_utf8 (dumps (VDict [(''b'', VInt 2), (''a'', VInt 1)]))) = ''eyJiIjoyLCJhIjoxfQ==''"
  by code_simp

text \<open>
  Reading back what the encoders wrote: the UTF-8 decoder returns the text, and the
  base64 decoder returns the bytes.
\<close>

lemma byte_less_256: "(of_char c :: nat) < 256"
  using of_char_mod_256[of c, where ?'a = nat] mod_less_divisor[of 256 "of_char c :: nat"]
  by simp

lemma decode_utf8_ascii:
  "(of_char b :: nat) < 128 \<Longrightarrow>
     decode_utf8 (b # bs) = (case decode_utf8 bs of None \<Rightarrow> None | Some s \<Rightarrow> Some (b # s))"
  by (cases bs) simp_all

lemma decode_utf8_char:
  "decode_utf8 (utf8_char c @ bs) =
     (case decode_utf8 bs of None \<Rightarrow> None | Some s \<Rightarrow> Some (c # s))"
proof (cases "(of_char c :: nat) < 128")
  case True
  then show ?thesis by (simp add: utf8_char_def decode_utf8_ascii)
next
  case False
  define n where "n = (of_char c :: nat)"
  have n: "128 \<le> n" "n < 256" using False byte_less_256[of c] by (simp_all add: n_def)
  then have d: "n div 64 = 2 \<or> n div 64 = 3" by arith
  have m: "n mod 64 < 64" by simp
  have same: "char_of n = c" by (simp add: n_def)
  have lead: "(192 + n div 64) mod 256 = 192 + n div 64" using d by auto
  have cont: "(128 + n mod 64) mod 256 = 128 + n mod 64" using m by simp
  show ?thesis
    using n d m same
    by (auto simp: utf8_char_def n_def[symmetric] Let_def lead cont split: option.splits)
qed

lemma decode_encode_utf8: "decode_utf8 (encode_utf8 s) = Some s"
proof (induction s)
  case Nil
  then show ?case by (simp add: encode_utf8_def)
next
  case (Cons c s)
  have "encode_utf8 (c # s) = utf8_char c @ encode_utf8 s" by (simp add: encode_utf8_def)
  then show ?case using Cons by (simp add: decode_utf8_char)
qed

lemma b64_alphabet_distinct: "distinct b64_alphabet"
  by (simp add: b64_alphabet_def)

lemma b64_alphabet_length: "length b64_alphabet = 64"
  by (simp add: b64_alphabet_def)

lemma b64_value_char: "n < 64 \<Longrightarrow> b64_value (b64_char n) = Some n"
  using map_of_zip_nth[of b64_alphabet "[0..<64]" n] b64_alphabet_distinct b64_alphabet_length
  by (simp add: b64_value_def b64_char_def)

lemma b64_pad_not_in: "CHR ''='' \<notin> set b64_alphabet"
  by (simp add: b64_alphabet_def)

lemma b64_char_not_pad: "n < 64 \<Longrightarrow> b64_char n \<noteq> CHR ''=''"
proof -
  assume "n < 64"
  then have "n < length b64_alphabet" by (simp add: b64_alphabet_length)
  then have "b64_alphabet ! n \<in> set b64_alphabet" by (rule nth_mem)
  then show ?thesis using b64_pad_not_in by (auto simp: b64_char_def)
qed

lemma b64decode_groups:
  "\<forall>x\<in>set xs. x < 256 \<Longrightarrow> b64decode (b64_groups xs) = Some (map char_of xs)"
proof (induction xs rule: b64_groups.induct)
  case 1
  show ?case by simp
next
  case (2 a)
  then have a: "a < 256" by simp
  have i1: "a div 4 < 64" and i2: "(a mod 4) * 16 < 64" using a by auto
  have v: "(a div 4) * 4 + ((a mod 4) * 16) div 16 = a" by simp
  show ?case
    using v by (simp add: b64_value_char[OF i1] b64_value_char[OF i2])
next
  case (3 a b)
  then have a: "a < 256" and b: "b < 256" by simp_all
  have i1: "a div 4 < 64" and i2: "(a mod 4) * 16 + b div 16 < 64"
    and i3: "(b mod 16) * 4 < 64" using a b by auto
  have v1: "(a div 4) * 4 + ((a mod 4) * 16 + b div 16) div 16 = a" using b by simp
  have v2: "(((a mod 4) * 16 + b div 16) mod 16) * 16 + ((b mod 16) * 4) div 4 = b"
    using b by simp
  show ?case
    using v1 v2 b64_char_not_pad[OF i3]
    by (simp add: b64_value_char[OF i1] b64_value_char[OF i2] b64_value_char[OF i3])
next
  case (4 a b c rest)
  then have a: "a < 256" and b: "b < 256" and c: "c < 256"
    and rest: "\<forall>x\<in>set rest. x < 256" by simp_all
  have i1: "a div 4 < 64" and i2: "(a mod 4) * 16 + b div 16 < 64"
    and i3: "(b mod 16) * 4 + c div 64 < 64" and i4: "c mod 64 < 64" using a b c by auto
  have v1: "(a div 4) * 4 + ((a mod 4) * 16 + b div 16) div 16 = a" using b by simp
  have v2: "(((a mod 4) * 16 + b div 16) mod 16) * 16 + ((b mod 16) * 4 + c div 64) div 4 = b"
    using b c by simp
  have v3: "(((b mod 16) * 4 + c div 64) mod 4) * 64 + c mod 64 = c" using c by simp
  from 4(1)[OF rest] have ih: "b64decode (b64_groups rest) = Some (map char_of rest)" .
  show ?case
    using v1 v2 v3 b64_char_not_pad[OF i3] b64_char_not_pad[OF i4] ih
    by (simp add: b64_value_char[OF i1] b64_value_char[OF i2] b64_value_char[OF i3]
        b64_value_char[OF i4])
qed

lemma b64decode_b64encode: "b64decode (b64encode data) = Some data"
proof -
  have "\<forall>x\<in>set (map of_char data :: nat list). x < 256" by (auto simp: byte_less_256)
  then have "b64decode (b64_groups (map of_char data)) =
               Some (map char_of (map of_char data :: nat list))"
    by (rule b64decode_groups)
  then show ?thesis by (simp add: b64encode_def comp_def)
qed

lemma echo_by_text_fields:
  "prefix echo_by_text = ''rc''" "namespace echo_by_text = Some ''names''"
  "key_serializer echo_by_text = Some x_text" "original_fn echo_by_text = echo_fn"
  by (simp_all add: echo_by_text_def decorator_call_def cache_def text_cache_def Let_def
      cache_config.extend_def cache_decorator.fields_def)

lemma echo_by_bytes_fields:
  "prefix echo_by_bytes = ''rc''" "namespace echo_by_bytes = Some ''names''"
  "key_serializer echo_by_bytes = Some x_bytes" "original_fn echo_by_bytes = echo_fn"
  by (simp_all add: echo_by_bytes_def decorator_call_def cache_def text_cache_def Let_def
      cache_config.extend_def cache_decorator.fields_def)

lemma echo_e_acute:
  "get_args (fn_signature echo_fn) [VStr [CHR 0xE9]] [] = Inr [(''x'', VStr [CHR 0xE9])]"
  by code_simp

lemma e_acute_utf8: "encode_utf8 [CHR 0xE9] = [CHR 0xC3, CHR 0xA9]"
  by code_simp

lemma e_acute_text_b64: "b64encode [CHR 0xC3, CHR 0xA9] = ''w6k=''"
  by code_simp

lemma e_acute_bytes_b64: "b64encode [CHR 0xE9] = ''6Q==''"
  by code_simp

text \<open>
  C4. When the arguments normalize to a map and the key serializer (the value serializer
  when none is given) returns its serialized form, the key is \<open>{prefix:namespace}:\<close>
  followed by a payload, the base64 encoding of that form, encoded in UTF-8 first when it
  is text: decoding the payload as base64 gives back the bytes, and decoding those as
  UTF-8 gives back the text. The payload holds neither \<open>{\<close> nor \<open>}\<close>.
\<close>

theorem get_key_format:
  assumes "get_args (fn_signature (original_fn self)) args kwargs = Inr normalized_args"
    and "(case key_serializer self of Some ks \<Rightarrow> ks | None \<Rightarrow> serializer self)
           (VDict normalized_args) = Inr serialized_data"
  shows "\<exists>payload data.
           get_key self args kwargs =
             Inr (''{'' @ prefix self @ '':'' @ format_namespace (namespace self) @ ''}:''
                  @ payload)
         \<and> payload = b64encode data
         \<and> b64decode payload = Some data
         \<and> (case serialized_data of
               SStr s \<Rightarrow> data = encode_utf8 s \<and> decode_utf8 data = Some s
             | SBytes b \<Rightarrow> data = b)
         \<and> CHR ''{'' \<notin> set payload \<and> CHR ''}'' \<notin> set payload"
proof -
  define data where "data = (case serialized_data of SStr s \<Rightarrow> encode_utf8 s | SBytes b \<Rightarrow> b)"
  have k: "get_key self args kwargs =
           Inr (''{'' @ prefix self @ '':'' @ format_namespace (namespace self) @ ''}:''
                @ b64encode data)"
    using assms unfolding data_def
    by (cases "key_serializer self") (simp_all add: get_key_def get_full_prefix_def to_bytes_def)
  have d: "case serialized_data of
             SStr s \<Rightarrow> data = encode_utf8 s \<and> decode_utf8 data = Some s
           | SBytes b \<Rightarrow> data = b"
    unfolding data_def by (cases serialized_data) (simp_all add: decode_encode_utf8)
  have "CHR ''{'' \<notin> set (b64encode data)" "CHR ''}'' \<notin> set (b64encode data)"
    using b64encode_no_braces[of data] by simp_all
  with k d b64decode_b64encode[of data] show ?thesis by blast
qed

theorem get_key_format_witness:
  "get_key echo_by_text [VStr [CHR 0xE9]] [] = Inr ''{rc:names}:w6k=''
   \<and> b64decode ''w6k='' = Some [CHR 0xC3, CHR 0xA9]
   \<and> decode_utf8 [CHR 0xC3, CHR 0xA9] = Some [CHR 0xE9]
   \<and> CHR ''{'' \<notin> set ''w6k='' \<and> CHR ''}'' \<notin> set ''w6k=''
   \<and> get_key echo_by_bytes [VStr [CHR 0xE9]] [] = Inr ''{rc:names}:6Q==''
   \<and> b64decode ''6Q=='' = Some [CHR 0xE9]
   \<and> get_key cached_add [VInt 1, VInt 2] [] = Inr ''{rc:m.add}:eyJhIjoxLCJiIjoyfQ==''"
proof -
  have t1: "get_args (fn_signature (original_fn echo_by_text)) [VStr [CHR 0xE9]] [] =
              Inr [(''x'', VStr [CHR 0xE9])]"
    using echo_e_acute by (simp add: echo_by_text_fields)
  have t2: "(case key_serializer echo_by_text of Some ks \<Rightarrow> ks | None \<Rightarrow> serializer echo_by_text)
              (VDict [(''x'', VStr [CHR 0xE9])]) = Inr (SStr [CHR 0xE9])"
    by (simp add: echo_by_text_fields x_text_def)
  from get_key_format[OF t1 t2] obtain p1 d1 where
    k1: "get_key echo_by_text [VStr [CHR 0xE9]] [] =
           Inr (''{'' @ prefix echo_by_text @ '':'' @ format_namespace (namespace echo_by_text)
                @ ''}:'' @ p1)"
    and p1: "p1 = b64encode d1" and b1: "b64decode p1 = Some d1"
    and d1: "d1 = encode_utf8 [CHR 0xE9]" and u1: "decode_utf8 d1 = Some [CHR 0xE9]"
    and n1: "CHR ''{'' \<notin> set p1" "CHR ''}'' \<notin> set p1"
    by auto
  have d1': "d1 = [CHR 0xC3, CHR 0xA9]" using d1 e_acute_utf8 by simp
  have p1': "p1 = ''w6k=''" using p1 d1' e_acute_text_b64 by simp
  have text_key: "get_key echo_by_text [VStr [CHR 0xE9]] [] = Inr ''{rc:names}:w6k=''
     \<and> b64decode ''w6k='' = Some [CHR 0xC3, CHR 0xA9]
     \<and> decode_utf8 [CHR 0xC3, CHR 0xA9] = Some [CHR 0xE9]
     \<and> CHR ''{'' \<notin> set ''w6k='' \<and> CHR ''}'' \<notin> set ''w6k=''"
    using k1 b1 u1 n1 unfolding p1' d1'
    by (simp add: echo_by_text_fields format_namespace_def)
  have b1: "get_args (fn_signature (original_fn echo_by_bytes)) [VStr [CHR 0xE9]] [] =
              Inr [(''x'', VStr [CHR 0xE9])]"
    using echo_e_acute by (simp add: echo_by_bytes_fields)
  have b2: "(case key_serializer echo_by_bytes of Some ks \<Rightarrow> ks | None \<Rightarrow> serializer echo_by_bytes)
              (VDict [(''x'', VStr [CHR 0xE9])]) = Inr (SBytes [CHR 0xE9])"
    by (simp add: echo_by_bytes_fields x_bytes_def)
  from get_key_format[OF b1 b2] obtain p2 d2 where
    k2: "get_key echo_by_bytes [VStr [CHR 0xE9]] [] =
           Inr (''{'' @ prefix echo_by_bytes @ '':'' @ format_namespace (namespace echo_by_bytes)
                @ ''}:'' @ p2)"
    and p2: "p2 = b64encode d2" and c2: "b64decode p2 = Some d2"
    and d2: "d2 = [CHR 0xE9]"
    by auto
  have p2': "p2 = ''6Q==''" using p2 d2 e_acute_bytes_b64 by simp
  have bytes_key: "get_key echo_by_bytes [VStr [CHR 0xE9]] [] = Inr ''{rc:names}:6Q==''
     \<and> b64decode ''6Q=='' = Some [CHR 0xE9]"
    using k2 c2 unfolding p2' d2
    by (simp add: echo_by_bytes_fields format_namespace_def)
  have j1: "get_args (fn_signature (original_fn cached_add)) [VInt 1, VInt 2] [] =
              Inr [(''a'', VInt 1), (''b'', VInt 2)]"
    using add_positional by (simp add: cached_add_fields add_fn_def)
  have j2: "(case key_serializer cached_add of Some ks \<Rightarrow> ks | None \<Rightarrow> serializer cached_add)
              (VDict [(''a'', VInt 1), (''b'', VInt 2)]) =
            Inr (SStr (dumps (VDict [(''a'', VInt 1), (''b'', VInt 2)])))"
    by (simp add: cached_add_fields compact_dump_def)
  from get_key_format[OF j1 j2] obtain p3 d3 where
    k3: "get_key cached_add [VInt 1, VInt 2] [] =
           Inr (''{'' @ prefix cached_add @ '':'' @ format_namespace (namespace cached_add)
                @ ''}:'' @ p3)"
    and p3: "p3 = b64encode d3"
    and d3: "d3 = encode_utf8 (dumps (VDict [(''a'', VInt 1), (''b'', VInt 2)]))"
    by auto
  have p3': "p3 = ''eyJhIjoxLCJiIjoyfQ==''" using p3 d3 add_key by simp
  have json_key: "get_key cached_add [VInt 1, VInt 2] [] = Inr ''{rc:m.add}:eyJhIjoxLCJiIjoyfQ==''"
    using k3 unfolding p3' by (simp add: cached_add_fields format_namespace_def)
  show ?thesis using text_key bytes_key json_key by simp
qed

text \<open>
  C1. The call \<open>add(1, 2)\<close> and the call \<open>add(b=2, a=1)\<close> give the parameters of
  \<open>add(a, b)\<close> the same values. The normalized maps bind the same names to the same
  values, but in different orders, and the keys derived from them differ.
\<close>

theorem keyword_order_changes_key:
  "get_args add_signature [VInt 1, VInt 2] [] = Inr [(''a'', VInt 1), (''b'', VInt 2)]
   \<and> get_args add_signature [] [(''b'', VInt 2), (''a'', VInt 1)] = Inr [(''b'', VInt 2), (''a'', VInt 1)]
   \<and> map_of [(''a'', VInt 1), (''b'', VInt 2)] = map_of [(''b'', VInt 2), (''a'', VInt 1)]
   \<and> get_key cached_add [VInt 1, VInt 2] [] = Inr ''{rc:m.add}:eyJhIjoxLCJiIjoyfQ==''
   \<and> get_key cached_add [] [(''b'', VInt 2), (''a'', VInt 1)] = Inr ''{rc:m.add}:eyJiIjoyLCJhIjoxfQ==''
   \<and> get_key cached_add [VInt 1, VInt 2] [] \<noteq> get_key cached_add [] [(''b'', VInt 2), (''a'', VInt 1)]"
proof -
  have m: "map_of [(''a'', VInt 1), (''b'', VInt 2)] = map_of [(''b'', VInt 2), (''a'', VInt 1)]"
    by (auto simp: fun_eq_iff)
  have k1: "get_key cached_add [VInt 1, VInt 2] [] = Inr ''{rc:m.add}:eyJhIjoxLCJiIjoyfQ==''"
    using add_positional add_key
    by (simp add: get_key_def cached_add_fields add_fn_def compact_dump_def to_bytes_def
        get_full_prefix_def format_namespace_def)
  have k2: "get_key cached_add [] [(''b'', VInt 2), (''a'', VInt 1)] = Inr ''{rc:m.add}:eyJiIjoyLCJhIjoxfQ==''"
    using add_named add_key_swapped
    by (simp add: get_key_def cached_add_fields add_fn_def compact_dump_def to_bytes_def
        get_full_prefix_def format_namespace_def)
  show ?thesis using add_positional add_named m k1 k2 by simp
qed


theorem keyword_order_changes_key_witness:
  "get_key cached_add [VInt 1, VInt 2] [] \<noteq> get_key cached_add [] [(''b'', VInt 2), (''a'', VInt 1)]
   \<and> map_of [(''a'', VInt 1), (''b'', VInt 2)] = map_of [(''b'', VInt 2), (''a'', VInt 1)]"
  using keyword_order_changes_key by simp

section \<open>Properties of the cache facade\<close>

lemma client_get_raises: "client_get w k = (Inl e, w1) \<Longrightarrow> w1 = w"
  by (auto simp: client_get_def split: option.splits entry.splits)

lemma client_get_up:
  "down w = None \<Longrightarrow> lookup w k = None \<Longrightarrow> client_get w k = (Inr None, log (GET k) w)"
  "down w = None \<Longrightarrow> lookup w k = Some (Str p d) \<Longrightarrow> client_get w k = (Inr (Some p), log (GET k) w)"
  by (simp_all add: client_get_def)

lemma inner_miss_general:
  assumes "get_key self args kwargs = Inr key" and "down w = None"
    and "lookup w key = None \<or> (\<exists>d. lookup w key = Some (Str [] d))"
    and "fn_body (original_fn self) args kwargs = Inr v" and "serializer self v = Inr s"
  shows "inner self w args kwargs =
          (case lua_cache_fn
                  ((log (GET key) w)\<lparr>invoked := invoked w @ [(fn_qualname (original_fn self), args, kwargs)]\<rparr>)
                  key (keys_key self) (to_bytes s) (ttl self) (limit self) of
             (Some e, w3) \<Rightarrow> (Inl e, w3)
           | (None, w3) \<Rightarrow> (Inr v, w3))"
proof -
  from assms(3) obtain result where g: "client_get w key = (Inr result, log (GET key) w)"
    and f: "falsy result"
    using client_get_up[OF assms(2)] by (auto simp: falsy_def)
  show ?thesis
    unfolding inner_def using assms(1,2,4,5) g f
    by (simp add: call_fn_def get_cache_lua_fn_def)
qed

lemma inner_miss:
  assumes "get_key self args kwargs = Inr key" and "down w = None"
    and "lookup w key = None \<or> (\<exists>d. lookup w key = Some (Str [] d))"
    and "fn_body (original_fn self) args kwargs = Inr v" and "serializer self v = Inr s"
    and "limit self \<le> 0"
  shows "inner self w args kwargs =
          (Inr v, write_entry
                    ((log (GET key) w)\<lparr>invoked := invoked w @ [(fn_qualname (original_fn self), args, kwargs)]\<rparr>)
                    key (to_bytes s) (ttl self))"
  using inner_miss_general[OF assms(1-5)] assms(6) by (simp add: lua_cache_fn_alt)

lemma inner_hit:
  assumes "get_key self args kwargs = Inr key" and "down w = None"
    and "lookup w key = Some (Str p d)" and "p \<noteq> []"
  shows "inner self w args kwargs =
          (case deserializer self p of
             Inl e \<Rightarrow> (Inl e, log (GET key) w)
           | Inr res \<Rightarrow> (Inr res, log (GET key) w))"
  unfolding inner_def using assms client_get_up(2)[OF assms(2,3)]
  by (simp add: falsy_def)

text \<open>
  C6. When the read of the store raises an exception of a declared fallback kind, the call
  returns what the wrapped function returns (or raises what it raises); the function is
  called once, and the store and the list of commands it has run are left as they were.
\<close>

theorem fallback_returns_live_result:
  assumes "get_key self args kwargs = Inr key"
    and "fst (client_get w key) = Inl e"
    and "fallback_exceptions self e"
  shows "inner self w args kwargs =
           (fn_body (original_fn self) args kwargs,
            w\<lparr>invoked := invoked w @ [(fn_qualname (original_fn self), args, kwargs)]\<rparr>)"
proof -
  obtain w1 where g: "client_get w key = (Inl e, w1)"
    using assms(2) by (cases "client_get w key") auto
  then have "w1 = w" by (rule client_get_raises)
  then show ?thesis
    unfolding inner_def using assms(1,3) g by (simp add: call_fn_def)
qed

lemma fallback_add_fields:
  "prefix fallback_add = ''rc''" "namespace fallback_add = Some ''m.add''"
  "key_serializer fallback_add = None" "serializer fallback_add = compact_dump"
  "original_fn fallback_add = add_fn"
  "fallback_exceptions fallback_add = (\<lambda>e. e = ConnectionError \<or> e = TimeoutError)"
  by (simp_all add: fallback_add_def decorator_call_def cache_def json_cache_def add_fn_def Let_def
      cache_config.extend_def cache_decorator.fields_def get_full_prefix_def format_namespace_def)

lemma add_body_1_2: "add_body [VInt 1, VInt 2] [] = Inr (VInt 3)"
  using add_positional by (simp add: add_body_def)

theorem fallback_returns_live_result_witness:
  "inner fallback_add (empty_world\<lparr>down := Some ConnectionError\<rparr>) [VInt 1, VInt 2] [] =
     (Inr (VInt 3),
      empty_world\<lparr>down := Some ConnectionError, invoked := [(''add'', [VInt 1, VInt 2], [])]\<rparr>)"
proof -
  have k: "get_key fallback_add [VInt 1, VInt 2] [] = Inr ''{rc:m.add}:eyJhIjoxLCJiIjoyfQ==''"
    using add_positional add_key
    by (simp add: get_key_def fallback_add_fields add_fn_def compact_dump_def to_bytes_def
        get_full_prefix_def format_namespace_def)
  have g: "fst (client_get (empty_world\<lparr>down := Some ConnectionError\<rparr>)
                  ''{rc:m.add}:eyJhIjoxLCJiIjoyfQ=='') = Inl ConnectionError"
    by (simp add: client_get_def)
  have f: "fallback_exceptions fallback_add ConnectionError"
    by (simp add: fallback_add_fields)
  show ?thesis
    using fallback_returns_live_result[OF k g f] add_body_1_2
    by (simp add: fallback_add_fields add_fn_def empty_world_def)
qed


text \<open>
  C10. On a miss that returns, the value returned is the value the wrapped function
  produced, as it is. When the entry written by that call is still there and its payload
  is not empty, the next call for the same arguments returns what the deserializer makes
  of the serialized value, which need not be that value.
\<close>

theorem miss_returns_computed_value:
  assumes "get_key self args kwargs = Inr key" and "down w = None" and "lookup w key = None"
    and "fn_body (original_fn self) args kwargs = Inr v" and "serializer self v = Inr s"
    and "inner self w args kwargs = (Inr r, w')"
  shows "r = v
       \<and> (lookup w' key \<noteq> None \<and> to_bytes s \<noteq> []
            \<longrightarrow> fst (inner self w' args kwargs) = deserializer self (to_bytes s))"
proof -
  define w2 where
    "w2 = (log (GET key) w)\<lparr>invoked := invoked w @ [(fn_qualname (original_fn self), args, kwargs)]\<rparr>"
  have m: "inner self w args kwargs =
          (case lua_cache_fn w2 key (keys_key self) (to_bytes s) (ttl self) (limit self) of
             (Some e, w3) \<Rightarrow> (Inl e, w3)
           | (None, w3) \<Rightarrow> (Inr v, w3))"
    unfolding w2_def using assms(1,2) _ assms(4,5)
    by (rule inner_miss_general) (simp add: assms(3))
  obtain err w3 where l: "lua_cache_fn w2 key (keys_key self) (to_bytes s) (ttl self) (limit self) = (err, w3)"
    by (cases "lua_cache_fn w2 key (keys_key self) (to_bytes s) (ttl self) (limit self)")
  have rv: "r = v" and w3: "w3 = w'"
    using m assms(6) l by (cases err; simp)+
  have d2: "down w2 = None" using assms(2) by (simp add: w2_def)
  from lua_cache_fn_effect[OF l]
  have st: "store w' key = Some (Str (to_bytes s)
              (if ttl self > 0 then Some (now_us w2 + nat (ttl self) * 1000000) else None))
            \<or> store w' key = None"
    and dn: "down w' = None"
    using w3 d2 by auto
  have "fst (inner self w' args kwargs) = deserializer self (to_bytes s)"
    if live: "lookup w' key \<noteq> None" and ne: "to_bytes s \<noteq> []"
  proof -
    from live have eq: "lookup w' key = store w' key" by (rule lookup_not_None)
    with live st obtain d where "lookup w' key = Some (Str (to_bytes s) d)" by auto
    from inner_hit[OF assms(1) dn this ne]
    show ?thesis by (cases "deserializer self (to_bytes s)") simp_all
  qed
  then show ?thesis using rv by blast
qed


lemma add_key_full: "get_key cached_add [VInt 1, VInt 2] [] = Inr ''{rc:m.add}:eyJhIjoxLCJiIjoyfQ==''"
  using add_positional add_key
  by (simp add: get_key_def cached_add_fields add_fn_def compact_dump_def to_bytes_def
      get_full_prefix_def format_namespace_def)

lemma dumps_3: "to_bytes (SStr (str_int 3)) = ''3''"
  by code_simp

lemma empty_world_simps [simp]:
  "down empty_world = None" "lookup empty_world k = None" "invoked empty_world = []"
  "sent empty_world = []" "store empty_world = (\<lambda>k. None)" "clock empty_world = (0, 0)"
  "ticks empty_world = []"
  by (simp_all add: empty_world_def lookup_def)

lemma cached_add_first_call:
  "inner cached_add empty_world [VInt 1, VInt 2] [] =
     (Inr (VInt 3),
      write_entry ((log (GET ''{rc:m.add}:eyJhIjoxLCJiIjoyfQ=='') empty_world)
                     \<lparr>invoked := [(''add'', [VInt 1, VInt 2], [])]\<rparr>)
        ''{rc:m.add}:eyJhIjoxLCJiIjoyfQ=='' ''3'' 0)"
proof -
  have b: "fn_body (original_fn cached_add) [VInt 1, VInt 2] [] = Inr (VInt 3)"
    using add_body_1_2 by (simp add: cached_add_fields add_fn_def)
  have s: "serializer cached_add (VInt 3) = Inr (SStr (dumps (VInt 3)))"
    by (simp add: cached_add_fields compact_dump_def)
  have "inner cached_add empty_world [VInt 1, VInt 2] [] =
          (Inr (VInt 3),
           write_entry ((log (GET ''{rc:m.add}:eyJhIjoxLCJiIjoyfQ=='') empty_world)
              \<lparr>invoked := invoked empty_world @ [(fn_qualname (original_fn cached_add), [VInt 1, VInt 2], [])]\<rparr>)
             ''{rc:m.add}:eyJhIjoxLCJiIjoyfQ=='' (to_bytes (SStr (dumps (VInt 3)))) (ttl cached_add))"
    by (rule inner_miss[OF add_key_full _ _ b s]) (simp_all add: cached_add_fields)
  then show ?thesis by (simp add: dumps_3 cached_add_fields add_fn_def)
qed

theorem miss_returns_computed_value_witness:
  "fst (inner cached_add empty_world [VInt 1, VInt 2] []) = Inr (VInt 3)
   \<and> fst (inner cached_add (snd (inner cached_add empty_world [VInt 1, VInt 2] []))
            [VInt 1, VInt 2] []) = Inr (VStr ''3'')"
proof -
  have b: "fn_body (original_fn cached_add) [VInt 1, VInt 2] [] = Inr (VInt 3)"
    using add_body_1_2 by (simp add: cached_add_fields add_fn_def)
  have s: "serializer cached_add (VInt 3) = Inr (SStr (dumps (VInt 3)))"
    by (simp add: cached_add_fields compact_dump_def)
  have d: "down empty_world = None" and l: "lookup empty_world ''{rc:m.add}:eyJhIjoxLCJiIjoyfQ=='' = None"
    by simp_all
  show ?thesis
    using miss_returns_computed_value[OF add_key_full d l b s cached_add_first_call]
    by (simp add: cached_add_first_call dumps_3 cached_add_fields decode_latin1_def)
qed

lemma cached_echo_fields:
  "prefix cached_echo = ''rc''" "namespace cached_echo = Some ''m.echo''"
  "key_serializer cached_echo = Some compact_dump" "serializer cached_echo = encode_latin1"
  "deserializer cached_echo = decode_latin1" "ttl cached_echo = 0" "limit cached_echo = 0"
  "keys_key cached_echo = ''{rc:m.echo}:keys''" "original_fn cached_echo = echo_fn"
  by (simp_all add: cached_echo_def decorator_call_def cache_def text_cache_def echo_fn_def Let_def
      cache_config.extend_def cache_decorator.fields_def get_full_prefix_def format_namespace_def)

lemma echo_args: "get_args [(''x'', POSITIONAL_OR_KEYWORD)] [VStr ''''] [] = Inr [(''x'', VStr '''')]"
  by code_simp

lemma echo_b64: "b64encode (encode_utf8 (dumps (VDict [(''x'', VStr '''')]))) = ''eyJ4IjoiIn0=''"
  by code_simp

lemma echo_key: "get_key cached_echo [VStr ''''] [] = Inr ''{rc:m.echo}:eyJ4IjoiIn0=''"
  using echo_args echo_b64
  by (simp add: get_key_def cached_echo_fields echo_fn_def compact_dump_def to_bytes_def
      get_full_prefix_def format_namespace_def)

lemma cached_echo_call:
  assumes "down w = None"
    and "lookup w ''{rc:m.echo}:eyJ4IjoiIn0='' = None
         \<or> (\<exists>d. lookup w ''{rc:m.echo}:eyJ4IjoiIn0='' = Some (Str [] d))"
  shows "inner cached_echo w [VStr ''''] [] =
     (Inr (VStr ''''),
      write_entry ((log (GET ''{rc:m.echo}:eyJ4IjoiIn0='') w)
                     \<lparr>invoked := invoked w @ [(''echo'', [VStr ''''], [])]\<rparr>)
        ''{rc:m.echo}:eyJ4IjoiIn0='' [] 0)"
proof -
  have b: "fn_body (original_fn cached_echo) [VStr ''''] [] = Inr (VStr '''')"
    by (simp add: cached_echo_fields echo_fn_def)
  have s: "serializer cached_echo (VStr '''') = Inr (SBytes [])"
    by (simp add: cached_echo_fields encode_latin1_def)
  have "inner cached_echo w [VStr ''''] [] =
          (Inr (VStr ''''),
           write_entry ((log (GET ''{rc:m.echo}:eyJ4IjoiIn0='') w)
              \<lparr>invoked := invoked w @ [(fn_qualname (original_fn cached_echo), [VStr ''''], [])]\<rparr>)
             ''{rc:m.echo}:eyJ4IjoiIn0='' (to_bytes (SBytes [])) (ttl cached_echo))"
    by (rule inner_miss[OF echo_key assms b s]) (simp add: cached_echo_fields)
  then show ?thesis by (simp add: cached_echo_fields echo_fn_def to_bytes_def)
qed

text \<open>
  C3. The function \<open>echo(x)\<close> returns its argument and is cached with a codec that stores
  a text as its bytes. The first call \<open>echo('')\<close> on an empty store computes the value and
  writes the empty payload under the key. The second call reads that payload back, takes
  it for a miss, calls the function again and writes again; the batch read of the same
  key takes it for a hit and calls nothing.
\<close>

theorem empty_payload_read_as_miss:
  "lookup (snd (inner cached_echo empty_world [VStr ''''] [])) ''{rc:m.echo}:eyJ4IjoiIn0=''
     = Some (Str [] None)
   \<and> invoked (snd (inner cached_echo empty_world [VStr ''''] [])) = [(''echo'', [VStr ''''], [])]
   \<and> invoked (snd (inner cached_echo (snd (inner cached_echo empty_world [VStr ''''] []))
                      [VStr ''''] []))
       = [(''echo'', [VStr ''''], []), (''echo'', [VStr ''''], [])]
   \<and> sent (snd (inner cached_echo (snd (inner cached_echo empty_world [VStr ''''] []))
                   [VStr ''''] []))
       = [GET ''{rc:m.echo}:eyJ4IjoiIn0='', SET ''{rc:m.echo}:eyJ4IjoiIn0='' [],
          GET ''{rc:m.echo}:eyJ4IjoiIn0='', SET ''{rc:m.echo}:eyJ4IjoiIn0='' []]
   \<and> mget text_cache (snd (inner cached_echo empty_world [VStr ''''] []))
         [\<lparr>req_fn = cached_echo, req_args = Some [VStr ''''], req_kwargs = None\<rparr>]
       = (Inr [VStr ''''],
          log (MGET [''{rc:m.echo}:eyJ4IjoiIn0=''])
            (snd (inner cached_echo empty_world [VStr ''''] [])))"
proof -
  define w1 where "w1 = snd (inner cached_echo empty_world [VStr ''''] [])"
  have w1: "w1 = write_entry ((log (GET ''{rc:m.echo}:eyJ4IjoiIn0='') empty_world)
                     \<lparr>invoked := [(''echo'', [VStr ''''], [])]\<rparr>)
        ''{rc:m.echo}:eyJ4IjoiIn0='' [] 0"
    unfolding w1_def by (subst cached_echo_call) simp_all
  have l1: "lookup w1 ''{rc:m.echo}:eyJ4IjoiIn0='' = Some (Str [] None)"
    unfolding w1 by simp
  have i1: "invoked w1 = [(''echo'', [VStr ''''], [])]" and s1: "sent w1 =
      [GET ''{rc:m.echo}:eyJ4IjoiIn0='', SET ''{rc:m.echo}:eyJ4IjoiIn0='' []]"
    and d1: "down w1 = None"
    unfolding w1 by simp_all
  have second: "inner cached_echo w1 [VStr ''''] [] =
     (Inr (VStr ''''),
      write_entry ((log (GET ''{rc:m.echo}:eyJ4IjoiIn0='') w1)
                     \<lparr>invoked := invoked w1 @ [(''echo'', [VStr ''''], [])]\<rparr>)
        ''{rc:m.echo}:eyJ4IjoiIn0='' [] 0)"
    by (rule cached_echo_call[OF d1]) (simp add: l1)
  have i2: "invoked (snd (inner cached_echo w1 [VStr ''''] [])) =
              [(''echo'', [VStr ''''], []), (''echo'', [VStr ''''], [])]"
    unfolding second by (simp add: i1)
  have s2: "sent (snd (inner cached_echo w1 [VStr ''''] [])) =
       [GET ''{rc:m.echo}:eyJ4IjoiIn0='', SET ''{rc:m.echo}:eyJ4IjoiIn0='' [],
          GET ''{rc:m.echo}:eyJ4IjoiIn0='', SET ''{rc:m.echo}:eyJ4IjoiIn0='' []]"
    unfolding second by (simp add: s1)
  have m: "mget text_cache w1
         [\<lparr>req_fn = cached_echo, req_args = Some [VStr ''''], req_kwargs = None\<rparr>]
       = (Inr [VStr ''''], log (MGET [''{rc:m.echo}:eyJ4IjoiIn0='']) w1)"
    using echo_key l1 d1
    by (simp add: mget_def args_of_def kwargs_of_def client_mget_def mget_slot_def
        text_cache_def decode_latin1_def)
  show ?thesis using l1 i1 i2 s2 m unfolding w1_def by simp
qed


section \<open>The eviction index\<close>

lemma index_members_store:
  "index_members w k = (case store w k of Some (ZSet zs) \<Rightarrow> map snd zs | _ \<Rightarrow> [])"
  by (auto simp: index_members_def lookup_def split: option.splits entry.splits)

lemma lookup_cases:
  "lookup w k = None \<or> (\<exists>v d. lookup w k = Some (Str v d) \<and> store w k = Some (Str v d))
   \<or> (\<exists>zs. lookup w k = Some (ZSet zs) \<and> store w k = Some (ZSet zs))"
  by (auto simp: lookup_def split: option.splits entry.splits)

text \<open>What each command of the eviction block does to the store.\<close>

lemma snd_filter_insert:
  "snd ` set (zinsert (score, member) (filter (\<lambda>e. snd e \<noteq> member) zs)) = insert member (snd ` set zs)"
  by (auto simp: image_iff)

lemma snd_filter_minus:
  "snd ` set (filter (\<lambda>e. snd e \<notin> S) zs) = snd ` set zs - S"
  by (auto simp: image_iff)

lemma redis_zadd_Inr:
  assumes "redis_zadd w k score member = Inr w3"
  shows "\<exists>zs. zs \<noteq> [] \<and> store w3 = (store w)(k \<mapsto> ZSet zs)
            \<and> snd ` set zs = insert member (set (index_members w k))
            \<and> clock w3 = clock w"
proof -
  have "lookup w k = None \<or> (\<exists>v d. lookup w k = Some (Str v d)) \<or> (\<exists>x. lookup w k = Some (ZSet x))"
    using lookup_cases[of w k] by auto
  then consider (none) "lookup w k = None"
    | (str) v d where "lookup w k = Some (Str v d)"
    | (zset) x where "lookup w k = Some (ZSet x)"
    by (elim disjE exE) simp_all
  then show ?thesis
  proof cases
    case none
    then have "w3 = log (ZADD k score member) (put_zset w k [(score, member)])"
      using assms by (simp add: redis_zadd_def)
    then have "[(score, member)] \<noteq> [] \<and> store w3 = (store w)(k \<mapsto> ZSet [(score, member)])
        \<and> snd ` set [(score, member)] = insert member (set (index_members w k))
        \<and> clock w3 = clock w"
      using none by (simp add: index_members_def)
    then show ?thesis by blast
  next
    case str
    then show ?thesis using assms by (simp add: redis_zadd_def)
  next
    case zset
    define zs where "zs = zinsert (score, member) (filter (\<lambda>e. snd e \<noteq> member) x)"
    have "w3 = log (ZADD k score member) (put_zset w k zs)"
      using assms zset by (simp add: redis_zadd_def zs_def)
    moreover have "zs \<noteq> []" by (simp add: zs_def)
    moreover have "snd ` set zs = insert member (set (index_members w k))"
      using zset unfolding zs_def snd_filter_insert by (simp add: index_members_def)
    ultimately have "zs \<noteq> [] \<and> store w3 = (store w)(k \<mapsto> ZSet zs)
        \<and> snd ` set zs = insert member (set (index_members w k)) \<and> clock w3 = clock w"
      by simp
    then show ?thesis by blast
  qed
qed

lemma redis_zcount_Inr:
  assumes "redis_zcount w k = Inr (count, w4)"
  shows "store w4 = store w \<and> clock w4 = clock w \<and> count = length (index_members w k)"
  using assms
  by (auto simp: redis_zcount_def index_members_def split: option.splits entry.splits)

lemma redis_zpopmin_Inr:
  assumes "redis_zpopmin w k n = Inr (reply, w5)" and "store w k = Some (ZSet zs)"
  shows "store w5 = (store w)(k := if drop (nat n) zs = [] then None else Some (ZSet (drop (nat n) zs)))
       \<and> clock w5 = clock w \<and> stale_keys_of reply = map snd (take (nat n) zs)"
  using assms lookup_ZSet[of w k zs]
  by (auto simp: redis_zpopmin_def split: option.splits entry.splits)

lemma redis_zrem_Inr:
  assumes "redis_zrem w k members = Inr w6"
  shows "clock w6 = clock w
       \<and> (\<forall>k'. k' \<noteq> k \<longrightarrow> store w6 k' = store w k')
       \<and> set (index_members w6 k) = set (index_members w k) - set members
       \<and> length (index_members w6 k) \<le> length (index_members w k)"
proof -
  have ne: "members \<noteq> []" using assms by (auto simp: redis_zrem_def split: if_splits)
  have "lookup w k = None \<or> (\<exists>v d. lookup w k = Some (Str v d)) \<or> (\<exists>x. lookup w k = Some (ZSet x))"
    using lookup_cases[of w k] by auto
  then consider (none) "lookup w k = None"
    | (str) v d where "lookup w k = Some (Str v d)"
    | (zset) x where "lookup w k = Some (ZSet x)"
    by (elim disjE exE) simp_all
  then show ?thesis
  proof cases
    case none
    then have "w6 = log (ZREM k members) w" using assms ne by (simp add: redis_zrem_def)
    moreover have "index_members w k = []" using none by (simp add: index_members_def)
    ultimately show ?thesis by (simp add: index_members_def)
  next
    case str
    then show ?thesis using assms ne by (simp add: redis_zrem_def)
  next
    case zset
    define zs where "zs = filter (\<lambda>e. snd e \<notin> set members) x"
    have w6: "w6 = log (ZREM k members) (put_zset w k zs)"
      using assms zset ne by (simp add: redis_zrem_def zs_def)
    have old: "index_members w k = map snd x" using zset by (simp add: index_members_def)
    have new: "index_members w6 k = map snd zs"
      unfolding w6 by (cases "zs = []") (simp_all add: index_members_store)
    have "set (map snd zs) = set (map snd x) - set members"
      unfolding zs_def using snd_filter_minus[of "set members" x] by simp
    moreover have "length (map snd zs) \<le> length (map snd x)" by (simp add: zs_def)
    ultimately show ?thesis unfolding old new by (simp add: w6)
  qed
qed

lemma redis_del_Inr:
  assumes "redis_del w ks = Inr w7"
  shows "clock w7 = clock w \<and> store w7 = (\<lambda>k. if k \<in> set ks then None else store w k)"
  using assms by (auto simp: redis_del_def split: if_splits)

lemma index_members_cong: "store w' k = store w k \<Longrightarrow> index_members w' k = index_members w k"
  by (simp add: index_members_store)

lemma retained_cong: "store w' m = store w m \<Longrightarrow> retained b w' m = retained b w m"
  by (simp add: retained_def)

lemma retained_ZSet: "store w m = Some (ZSet zs) \<Longrightarrow> retained b w m"
  by (simp add: retained_def)

lemma index_members_ZSet:
  assumes "m \<in> set (index_members w k)"
  shows "\<exists>zs. store w k = Some (ZSet zs)"
proof (cases "store w k")
  case None
  then show ?thesis using assms by (simp add: index_members_store)
next
  case (Some e)
  then show ?thesis using assms by (cases e) (simp_all add: index_members_store)
qed

lemma index_retained_iff: "index_retained b w k = (\<forall>m\<in>set (index_members w k). retained b w m)"
  by (auto simp: index_retained_def index_members_store list_all_iff split: option.splits entry.splits)

lemma retained_lookup: "retained True w m \<Longrightarrow> lookup w m \<noteq> None"
  by (auto simp: retained_def lookup_def split: option.splits entry.splits)

lemma retained_expired:
  "retained False w m \<Longrightarrow>
     lookup w m \<noteq> None \<or> (\<exists>v d. store w m = Some (Str v (Some d)) \<and> d \<le> now_us w)"
  by (auto simp: retained_def lookup_def split: option.splits entry.splits)

text \<open>
  The eviction block keeps every member of the index stored, whatever its outcome, and
  a completed run leaves at most the size limit of members.
\<close>

lemma evict_invariant:
  assumes ev: "evict w k1 k2 L = (r, w')"
  shows "((\<forall>m\<in>set (index_members w k2). retained b w m) \<and> retained b w k1
            \<longrightarrow> (\<forall>m\<in>set (index_members w' k2). retained b w' m))
       \<and> (r = None \<and> 0 < L \<longrightarrow> length (index_members w' k2) \<le> nat L)"
proof -
  let ?P = "\<lambda>w. (\<forall>m\<in>set (index_members w k2). retained b w m)"
  let ?pre = "?P w \<and> retained b w k1"
  let ?w2 = "log TIME w"
  have s2: "store ?w2 = store w" by simp
  have P2: "?pre \<longrightarrow> ?P ?w2"
    by (simp add: index_members_store retained_def)
  show ?thesis
  proof (cases "redis_zadd ?w2 k2 (lua_time (clock w)) k1")
    case (Inl e)
    then have "r = Some e" "w' = ?w2" using ev by (simp_all add: evict_def redis_time_def)
    then show ?thesis using P2 by simp
  next
    case (Inr w3)
    from redis_zadd_Inr[OF Inr] obtain zs where zs: "zs \<noteq> []"
      and s3: "store w3 = (store ?w2)(k2 \<mapsto> ZSet zs)"
      and m3: "snd ` set zs = insert k1 (set (index_members ?w2 k2))" by blast
    have im3: "index_members w3 k2 = map snd zs" by (simp add: index_members_store s3)
    have P3: "?pre \<longrightarrow> ?P w3"
    proof (intro impI ballI)
      fix m assume pre: ?pre and m: "m \<in> set (index_members w3 k2)"
      show "retained b w3 m"
      proof (cases "m = k2")
        case True
        then show ?thesis using s3 by (simp add: retained_def)
      next
        case False
        then have eq: "store w3 m = store w m" using s3 by simp
        have "index_members ?w2 k2 = index_members w k2"
          by (rule index_members_cong) simp
        then have "snd ` set zs = insert k1 (set (index_members w k2))" using m3 by simp
        moreover have "m \<in> snd ` set zs" using m im3 by simp
        ultimately have "m = k1 \<or> m \<in> set (index_members w k2)" by blast
        then have "retained b w m" using pre by blast
        then show ?thesis using retained_cong[OF eq] by simp
      qed
    qed
    show ?thesis
    proof (cases "redis_zcount w3 k2")
      case (Inl e)
      then have "r = Some e" "w' = w3" using ev Inr by (simp_all add: evict_def redis_time_def)
      then show ?thesis using P3 by simp
    next
      case zc: (Inr cw)
      obtain count w4 where cw: "cw = (count, w4)" by (cases cw)
      from redis_zcount_Inr[OF zc[unfolded cw]]
      have s4: "store w4 = store w3" and cnt: "count = length zs" by (simp_all add: im3)
      have im4: "index_members w4 k2 = map snd zs" by (simp add: index_members_store s4 s3)
      have P4: "?pre \<longrightarrow> ?P w4"
        using P3 by (simp add: index_members_store retained_def s4)
      show ?thesis
      proof (cases "int count - L > 0")
        case False
        then have "r = None" "w' = w4"
          using ev Inr zc cw by (simp_all add: evict_def redis_time_def Let_def)
        moreover have "0 < L \<longrightarrow> length (index_members w4 k2) \<le> nat L"
          using False cnt im4 by auto
        ultimately show ?thesis using P4 by simp
      next
        case over: True
        define n where "n = nat (int count - L)"
        show ?thesis
        proof (cases "redis_zpopmin w4 k2 (int count - L)")
          case (Inl e)
          then have "r = Some e" "w' = w4"
            using ev Inr zc cw over by (simp_all add: evict_def redis_time_def Let_def)
          then show ?thesis using P4 by simp
        next
          case zp: (Inr rw5)
          obtain reply w5 where rw5: "rw5 = (reply, w5)" by (cases rw5)
          have st4: "store w4 k2 = Some (ZSet zs)" by (simp add: s4 s3)
          from redis_zpopmin_Inr[OF zp[unfolded rw5] st4]
          have s5: "store w5 = (store w4)(k2 := if drop n zs = [] then None else Some (ZSet (drop n zs)))"
            and stale: "stale_keys_of reply = map snd (take n zs)"
            by (simp_all add: n_def)
          have im5: "index_members w5 k2 = map snd (drop n zs)"
            by (simp add: index_members_store s5)
          have len5: "0 < L \<longrightarrow> length (index_members w5 k2) \<le> nat L"
            using over cnt by (auto simp: im5 n_def)
          have P5: "?pre \<longrightarrow> ?P w5"
          proof (intro impI ballI)
            fix m assume pre: ?pre and m: "m \<in> set (index_members w5 k2)"
            from m have m4: "m \<in> set (index_members w4 k2)"
              unfolding im5 im4 by (auto dest: in_set_dropD)
            show "retained b w5 m"
            proof (cases "m = k2")
              case True
              from m have "drop n zs \<noteq> []" unfolding im5 by auto
              then show ?thesis using True s5 by (simp add: retained_def)
            next
              case False
              then have "store w5 m = store w4 m" using s5 by simp
              then show ?thesis using P4 pre m4 retained_cong by blast
            qed
          qed
          show ?thesis
          proof (cases "redis_zrem w5 k2 (stale_keys_of reply)")
            case (Inl e)
            then have "r = Some e" "w' = w5"
              using ev Inr zc cw over zp rw5 by (simp_all add: evict_def redis_time_def Let_def)
            then show ?thesis using P5 by simp
          next
            case zr: (Inr w6)
            from redis_zrem_Inr[OF zr]
            have s6: "\<forall>k'. k' \<noteq> k2 \<longrightarrow> store w6 k' = store w5 k'"
              and m6: "set (index_members w6 k2) = set (index_members w5 k2) - set (stale_keys_of reply)"
              and len6: "length (index_members w6 k2) \<le> length (index_members w5 k2)"
              by blast+
            have P6: "?pre \<longrightarrow> ?P w6"
            proof (intro impI ballI)
              fix m assume pre: ?pre and m: "m \<in> set (index_members w6 k2)"
              show "retained b w6 m"
              proof (cases "m = k2")
                case True
                from index_members_ZSet[OF m] show ?thesis using True retained_ZSet by blast
              next
                case False
                then have "store w6 m = store w5 m" using s6 by simp
                moreover have "m \<in> set (index_members w5 k2)" using m m6 by blast
                ultimately show ?thesis using P5 pre retained_cong by blast
              qed
            qed
            show ?thesis
            proof (cases "redis_del w6 (stale_keys_of reply)")
              case (Inl e)
              then have "r = Some e" "w' = w6"
                using ev Inr zc cw over zp rw5 zr
                by (simp_all add: evict_def redis_time_def Let_def)
              then show ?thesis using P6 by simp
            next
              case dl: (Inr w7)
              then have w': "w' = w7" and r: "r = None"
                using ev Inr zc cw over zp rw5 zr
                by (simp_all add: evict_def redis_time_def Let_def)
              from redis_del_Inr[OF dl]
              have s7: "store w7 = (\<lambda>k. if k \<in> set (stale_keys_of reply) then None else store w6 k)"
                by simp
              have im7: "index_members w7 k2 =
                  (if k2 \<in> set (stale_keys_of reply) then [] else index_members w6 k2)"
                by (simp add: index_members_store s7)
              have len7: "0 < L \<longrightarrow> length (index_members w7 k2) \<le> nat L"
                using len5 len6 by (auto simp: im7)
              have P7: "?pre \<longrightarrow> ?P w7"
              proof (intro impI ballI)
                fix m assume pre: ?pre and m: "m \<in> set (index_members w7 k2)"
                from m have m6': "m \<in> set (index_members w6 k2)"
                  unfolding im7 by (simp split: if_splits)
                then have "m \<notin> set (stale_keys_of reply)" using m6 by blast
                then have "store w7 m = store w6 m" using s7 by simp
                then show "retained b w7 m" using P6 pre m6' retained_cong by blast
              qed
              show ?thesis using P7 len7 w' by simp
            qed
          qed
        qed
      qed
    qed
  qed
qed

lemma retained_clock [simp]: "retained b (w\<lparr>clock := now\<rparr>) m = retained b w m"
  by (simp add: retained_def)

lemma index_retained_clock [simp]: "index_retained b (w\<lparr>clock := now\<rparr>) k = index_retained b w k"
  by (simp add: index_retained_iff index_members_store)

lemma lua_cache_fn_index_retained:
  assumes "lua_cache_fn w k1 k2 v t L = (r, w')" and "b \<longrightarrow> t \<le> 0" and "index_retained b w k2"
  shows "index_retained b w' k2"
proof -
  define w1 where "w1 = write_entry w k1 v t"
  define dl where "dl = (if t > 0 then Some (now_us w + nat t * 1000000) else None)"
  have s1: "store w1 = (store w)(k1 \<mapsto> Str v dl)"
    by (simp add: w1_def dl_def)
  have k1: "retained b w1 k1"
    using assms(2) by (cases dl) (auto simp: retained_def s1 dl_def split: if_splits)
  have P1: "\<forall>m\<in>set (index_members w1 k2). retained b w1 m"
  proof
    fix m assume m: "m \<in> set (index_members w1 k2)"
    show "retained b w1 m"
    proof (cases "m = k1")
      case True
      then show ?thesis using k1 by simp
    next
      case False
      then have eq: "store w1 m = store w m" by (simp add: s1)
      have "k1 \<noteq> k2" using m by (auto simp: index_members_store s1)
      then have "index_members w1 k2 = index_members w k2"
        by (simp add: index_members_store s1)
      then have "retained b w m" using m assms(3) by (simp add: index_retained_iff)
      then show ?thesis using retained_cong[OF eq] by simp
    qed
  qed
  show ?thesis
  proof (cases "L > 0")
    case True
    then have "evict w1 k1 k2 L = (r, w')"
      using assms(1) by (simp add: lua_cache_fn_alt w1_def)
    from evict_invariant[OF this] P1 k1 show ?thesis by (simp add: index_retained_iff)
  next
    case False
    then have "w' = w1" using assms(1) by (simp add: lua_cache_fn_alt w1_def)
    then show ?thesis using P1 by (simp add: index_retained_iff)
  qed
qed

lemma execute_all_index_retained:
  assumes "b \<longrightarrow> (\<forall>c\<in>set calls. fst (snd (snd c)) \<le> 0)" and "index_retained b w k2"
  shows "index_retained b (execute_all w k2 L calls) k2"
  using assms
proof (induction calls arbitrary: w)
  case Nil
  then show ?case by simp
next
  case (Cons c calls)
  obtain k v t now where c: "c = (k, v, t, now)" by (cases c)
  obtain r w1 where l: "lua_cache_fn (w\<lparr>clock := now\<rparr>) k k2 v t L = (r, w1)"
    by (cases "lua_cache_fn (w\<lparr>clock := now\<rparr>) k k2 v t L")
  have "b \<longrightarrow> t \<le> 0" using Cons.prems(1) c by simp
  then have "index_retained b w1 k2"
    using lua_cache_fn_index_retained[OF l] Cons.prems(2) by simp
  moreover have "b \<longrightarrow> (\<forall>c\<in>set calls. fst (snd (snd c)) \<le> 0)" using Cons.prems(1) by simp
  ultimately have "index_retained b (execute_all w1 k2 L calls) k2" by (rule Cons.IH[rotated])
  then show ?case using c l by simp
qed

lemma lua_cache_fn_bound:
  assumes "lua_cache_fn w k1 k2 v t L = (None, w')" and "0 < L"
  shows "length (index_members w' k2) \<le> nat L"
proof -
  have "evict (write_entry w k1 v t) k1 k2 L = (None, w')"
    using assms by (simp add: lua_cache_fn_alt)
  from evict_invariant[OF this] assms(2) show ?thesis by simp
qed

text \<open>
  C2 (as amended). After every completed execution with a size limit above zero, whatever
  ran before it under the same index key, the index holds at most that many members.
  When the index started with every member in the store, every member of the index is a
  key that exists in the store or whose entry carried a deadline that has passed. When
  the index started with every member stored without a deadline and every execution, this
  one included, writes without expiration (ttl zero or less), every member of the index
  is a key that exists in the store.
\<close>

theorem eviction_bound:
  assumes "0 < size_limit"
    and "lua_cache_fn ((execute_all w0 index_key size_limit calls)\<lparr>clock := now\<rparr>)
           entry_key index_key val ttl_arg size_limit = (None, w')"
  shows "length (index_members w' index_key) \<le> nat size_limit
       \<and> (index_retained False w0 index_key
            \<longrightarrow> (\<forall>m\<in>set (index_members w' index_key).
                   lookup w' m \<noteq> None
                 \<or> (\<exists>v d. store w' m = Some (Str v (Some d)) \<and> d \<le> now_us w')))
       \<and> (index_retained True w0 index_key \<and> ttl_arg \<le> 0
              \<and> (\<forall>c\<in>set calls. fst (snd (snd c)) \<le> 0)
            \<longrightarrow> (\<forall>m\<in>set (index_members w' index_key). lookup w' m \<noteq> None))"
proof (intro conjI impI ballI)
  show "length (index_members w' index_key) \<le> nat size_limit"
    using assms(2,1) by (rule lua_cache_fn_bound)
next
  fix m
  assume h: "index_retained False w0 index_key"
    and m: "m \<in> set (index_members w' index_key)"
  from h have "index_retained False (execute_all w0 index_key size_limit calls) index_key"
    by (rule execute_all_index_retained[rotated]) simp
  then have "index_retained False
               ((execute_all w0 index_key size_limit calls)\<lparr>clock := now\<rparr>) index_key"
    by simp
  then have "index_retained False w' index_key"
    using lua_cache_fn_index_retained[OF assms(2), of False] by simp
  then have "retained False w' m" using m by (simp add: index_retained_iff)
  then show "lookup w' m \<noteq> None
             \<or> (\<exists>v d. store w' m = Some (Str v (Some d)) \<and> d \<le> now_us w')"
    by (rule retained_expired)
next
  fix m
  assume h: "index_retained True w0 index_key \<and> ttl_arg \<le> 0
               \<and> (\<forall>c\<in>set calls. fst (snd (snd c)) \<le> 0)"
    and m: "m \<in> set (index_members w' index_key)"
  from h have "index_retained True (execute_all w0 index_key size_limit calls) index_key"
    using execute_all_index_retained[of True calls w0 index_key size_limit] by blast
  then have "index_retained True
               ((execute_all w0 index_key size_limit calls)\<lparr>clock := now\<rparr>) index_key"
    by simp
  with assms(2) h have "index_retained True w' index_key"
    using lua_cache_fn_index_retained[of _ entry_key index_key val ttl_arg size_limit None w' True]
    by blast
  then have "retained True w' m" using m by (simp add: index_retained_iff)
  then show "lookup w' m \<noteq> None" by (rule retained_lookup)
qed

text \<open>Unfolding the script and the commands on a concrete store.\<close>

lemmas script_eval =
  lua_cache_fn_alt evict_def redis_time_def redis_zadd_def redis_zcount_def redis_zpopmin_def
  redis_zrem_def redis_del_def lookup_def now_us_def put_zset_def log_def write_entry_def
  redis_set_def redis_setex_def lua_time_def zle_def Let_def index_members_def empty_world_def

text \<open>
  C2, as stated, fails. Under the index \<open>{rc:m.add}:keys\<close> with size limit 5, a first
  execution at time 0 writes the entry of \<open>add(1, 2)\<close> with a ttl of one second, and a
  second execution at time 10 writes the entry of \<open>add(b=2, a=1)\<close>. The second execution
  completes; the index still lists the first key, which expired nine seconds earlier and
  is no longer in the store.
\<close>

theorem expired_entry_stays_in_index:
  "fst (lua_cache_fn
         ((execute_all empty_world ''{rc:m.add}:keys'' 5
             [(''{rc:m.add}:eyJhIjoxLCJiIjoyfQ=='', ''3'', 1, (0, 0))])\<lparr>clock := (10, 0)\<rparr>)
         ''{rc:m.add}:eyJiIjoyLCJhIjoxfQ=='' ''{rc:m.add}:keys'' ''3'' 1 5) = None
   \<and> ''{rc:m.add}:eyJhIjoxLCJiIjoyfQ==''
        \<in> set (index_members
             (snd (lua_cache_fn
               ((execute_all empty_world ''{rc:m.add}:keys'' 5
                   [(''{rc:m.add}:eyJhIjoxLCJiIjoyfQ=='', ''3'', 1, (0, 0))])\<lparr>clock := (10, 0)\<rparr>)
               ''{rc:m.add}:eyJiIjoyLCJhIjoxfQ=='' ''{rc:m.add}:keys'' ''3'' 1 5))
             ''{rc:m.add}:keys'')
   \<and> lookup
        (snd (lua_cache_fn
               ((execute_all empty_world ''{rc:m.add}:keys'' 5
                   [(''{rc:m.add}:eyJhIjoxLCJiIjoyfQ=='', ''3'', 1, (0, 0))])\<lparr>clock := (10, 0)\<rparr>)
               ''{rc:m.add}:eyJiIjoyLCJhIjoxfQ=='' ''{rc:m.add}:keys'' ''3'' 1 5))
        ''{rc:m.add}:eyJhIjoxLCJiIjoyfQ=='' = None"
  by (simp add: script_eval)

theorem eviction_bound_witness:
  "length (index_members
             (snd (lua_cache_fn
               ((execute_all empty_world ''{rc:m.add}:keys'' 1
                   [(''{rc:m.add}:eyJhIjoxLCJiIjoyfQ=='', ''3'', 0, (0, 0))])\<lparr>clock := (10, 0)\<rparr>)
               ''{rc:m.add}:eyJiIjoyLCJhIjoxfQ=='' ''{rc:m.add}:keys'' ''3'' 0 1))
             ''{rc:m.add}:keys'') \<le> nat 1
   \<and> index_members
        (snd (lua_cache_fn
               ((execute_all empty_world ''{rc:m.add}:keys'' 1
                   [(''{rc:m.add}:eyJhIjoxLCJiIjoyfQ=='', ''3'', 0, (0, 0))])\<lparr>clock := (10, 0)\<rparr>)
               ''{rc:m.add}:eyJiIjoyLCJhIjoxfQ=='' ''{rc:m.add}:keys'' ''3'' 0 1))
        ''{rc:m.add}:keys'' = [''{rc:m.add}:eyJiIjoyLCJhIjoxfQ=='']
   \<and> lookup
        (snd (lua_cache_fn
               ((execute_all empty_world ''{rc:m.add}:keys'' 1
                   [(''{rc:m.add}:eyJhIjoxLCJiIjoyfQ=='', ''3'', 0, (0, 0))])\<lparr>clock := (10, 0)\<rparr>)
               ''{rc:m.add}:eyJiIjoyLCJhIjoxfQ=='' ''{rc:m.add}:keys'' ''3'' 0 1))
        ''{rc:m.add}:eyJiIjoyLCJhIjoxfQ=='' \<noteq> None"
proof -
  define w' where "w' = snd (lua_cache_fn
               ((execute_all empty_world ''{rc:m.add}:keys'' 1
                   [(''{rc:m.add}:eyJhIjoxLCJiIjoyfQ=='', ''3'', 0, (0, 0))])\<lparr>clock := (10, 0)\<rparr>)
               ''{rc:m.add}:eyJiIjoyLCJhIjoxfQ=='' ''{rc:m.add}:keys'' ''3'' 0 1)"
  have f: "fst (lua_cache_fn
               ((execute_all empty_world ''{rc:m.add}:keys'' 1
                   [(''{rc:m.add}:eyJhIjoxLCJiIjoyfQ=='', ''3'', 0, (0, 0))])\<lparr>clock := (10, 0)\<rparr>)
               ''{rc:m.add}:eyJiIjoyLCJhIjoxfQ=='' ''{rc:m.add}:keys'' ''3'' 0 1) = None"
    by (simp add: script_eval)
  have h: "lua_cache_fn
               ((execute_all empty_world ''{rc:m.add}:keys'' 1
                   [(''{rc:m.add}:eyJhIjoxLCJiIjoyfQ=='', ''3'', 0, (0, 0))])\<lparr>clock := (10, 0)\<rparr>)
               ''{rc:m.add}:eyJiIjoyLCJhIjoxfQ=='' ''{rc:m.add}:keys'' ''3'' 0 1 = (None, w')"
    unfolding w'_def using f by (simp add: prod_eq_iff)
  have m: "index_members w' ''{rc:m.add}:keys'' = [''{rc:m.add}:eyJiIjoyLCJhIjoxfQ=='']"
    unfolding w'_def by (simp add: script_eval)
  have k: "index_retained True empty_world ''{rc:m.add}:keys''"
    "index_retained False empty_world ''{rc:m.add}:keys''"
    by (simp_all add: index_retained_def empty_world_def)
  have p: "(0::int) < 1" by simp
  show ?thesis
    using eviction_bound[OF p h] k m unfolding w'_def[symmetric] by simp
qed


theorem entry_written_with_expiration_witness:
  "ttl_accepted empty_world 60
   \<and> sent (snd (lua_cache_fn empty_world ''{rc:m.add}:eyJhIjoxLCJiIjoyfQ==''
                  ''{rc:m.add}:keys'' ''3'' 60 0))
       = [SETEX ''{rc:m.add}:eyJhIjoxLCJiIjoyfQ=='' 60 ''3'']
   \<and> store (snd (lua_cache_fn empty_world ''{rc:m.add}:eyJhIjoxLCJiIjoyfQ==''
                   ''{rc:m.add}:keys'' ''3'' 60 0))
         ''{rc:m.add}:eyJhIjoxLCJiIjoyfQ==''
       = Some (Str ''3'' (Some 60000000))
   \<and> sent (snd (lua_cache_fn empty_world ''{rc:m.add}:eyJhIjoxLCJiIjoyfQ==''
                  ''{rc:m.add}:keys'' ''3'' 0 1))
       = [SET ''{rc:m.add}:eyJhIjoxLCJiIjoyfQ=='' ''3'', TIME,
          ZADD ''{rc:m.add}:keys'' 0 ''{rc:m.add}:eyJhIjoxLCJiIjoyfQ=='',
          ZCOUNT ''{rc:m.add}:keys'']
   \<and> store (snd (lua_cache_fn empty_world ''{rc:m.add}:eyJhIjoxLCJiIjoyfQ==''
                   ''{rc:m.add}:keys'' ''3'' 0 1))
         ''{rc:m.add}:eyJhIjoxLCJiIjoyfQ==''
       = Some (Str ''3'' None)"
proof -
  have a: "ttl_accepted empty_world 60"
    by (simp add: ttl_accepted_def)
  have s1: "sent (snd (lua_cache_fn empty_world ''{rc:m.add}:eyJhIjoxLCJiIjoyfQ==''
                         ''{rc:m.add}:keys'' ''3'' 60 0))
              = [SETEX ''{rc:m.add}:eyJhIjoxLCJiIjoyfQ=='' 60 ''3'']"
    by (simp add: lua_cache_fn_alt)
  have s2: "sent (snd (lua_cache_fn empty_world ''{rc:m.add}:eyJhIjoxLCJiIjoyfQ==''
                         ''{rc:m.add}:keys'' ''3'' 0 1))
              = [SET ''{rc:m.add}:eyJhIjoxLCJiIjoyfQ=='' ''3'', TIME,
                 ZADD ''{rc:m.add}:keys'' 0 ''{rc:m.add}:eyJhIjoxLCJiIjoyfQ=='',
                 ZCOUNT ''{rc:m.add}:keys'']"
    by (simp add: script_eval str_nat.simps)
  have k: "store (snd (lua_cache_fn empty_world ''{rc:m.add}:eyJhIjoxLCJiIjoyfQ==''
                         ''{rc:m.add}:keys'' ''3'' 0 1))
             ''{rc:m.add}:eyJhIjoxLCJiIjoyfQ==''
           \<noteq> None"
    by (simp add: script_eval)
  show ?thesis
    using entry_written_with_expiration
            [of 60 empty_world "''{rc:m.add}:eyJhIjoxLCJiIjoyfQ==''" "''{rc:m.add}:keys''" "''3''" 0]
          entry_written_with_expiration
            [of 0 empty_world "''{rc:m.add}:eyJhIjoxLCJiIjoyfQ==''" "''{rc:m.add}:keys''" "''3''" 1]
          a s1 s2 k
    by (simp add: now_us_def)
qed

theorem no_index_bookkeeping_without_limit_witness:
  "index_members (snd (lua_cache_fn empty_world ''{rc:m.add}:eyJhIjoxLCJiIjoyfQ==''
                         ''{rc:m.add}:keys'' ''3'' 0 1))
     ''{rc:m.add}:keys'' = [''{rc:m.add}:eyJhIjoxLCJiIjoyfQ=='']
   \<and> index_members
        (snd (lua_cache_fn
                (snd (lua_cache_fn empty_world ''{rc:m.add}:eyJhIjoxLCJiIjoyfQ==''
                        ''{rc:m.add}:keys'' ''3'' 0 1))
                ''{rc:m.add}:eyJhIjoyLCJiIjoyfQ=='' ''{rc:m.add}:keys'' ''4'' 0 0))
        ''{rc:m.add}:keys'' = [''{rc:m.add}:eyJhIjoxLCJiIjoyfQ=='']"
proof -
  define w where "w = snd (lua_cache_fn empty_world ''{rc:m.add}:eyJhIjoxLCJiIjoyfQ==''
                         ''{rc:m.add}:keys'' ''3'' 0 1)"
  have m: "index_members w ''{rc:m.add}:keys'' = [''{rc:m.add}:eyJhIjoxLCJiIjoyfQ=='']"
    unfolding w_def by (simp add: script_eval)
  have n: "''{rc:m.add}:keys'' \<noteq> ''{rc:m.add}:eyJhIjoyLCJiIjoyfQ==''" by simp
  show ?thesis
    using no_index_bookkeeping_without_limit
            [of w "''{rc:m.add}:eyJhIjoyLCJiIjoyfQ==''" "''{rc:m.add}:keys''" "''4''" 0 "[]"] m n
    unfolding w_def[symmetric] by simp
qed

section \<open>Properties of the batch facade\<close>

lemma mget_keys_Inr:
  "mget_keys fns = Inr keys \<Longrightarrow>
     length keys = length fns
   \<and> (\<forall>i<length fns.
         get_key (req_fn (fns ! i)) (args_of (fns ! i)) (kwargs_of (fns ! i)) = Inr (keys ! i))"
proof (induction fns arbitrary: keys)
  case Nil
  then show ?case by simp
next
  case (Cons r rs)
  from Cons.prems obtain k ks where k: "get_key (req_fn r) (args_of r) (kwargs_of r) = Inr k"
    and ks: "mget_keys rs = Inr ks" and keys: "keys = k # ks"
    by (auto split: sum.splits)
  from Cons.IH[OF ks] have len: "length ks = length rs"
    and each: "\<forall>i<length rs.
         get_key (req_fn (rs ! i)) (args_of (rs ! i)) (kwargs_of (rs ! i)) = Inr (ks ! i)"
    by simp_all
  have "\<forall>i<length (r # rs).
         get_key (req_fn ((r # rs) ! i)) (args_of ((r # rs) ! i)) (kwargs_of ((r # rs) ! i))
           = Inr (keys ! i)"
  proof (intro allI impI)
    fix i assume "i < length (r # rs)"
    then show "get_key (req_fn ((r # rs) ! i)) (args_of ((r # rs) ! i)) (kwargs_of ((r # rs) ! i))
           = Inr (keys ! i)"
      using k each keys by (cases i) simp_all
  qed
  then show ?case using len keys by simp
qed

lemma mget_loop_Inr:
  "mget_loop self fns keys i results w pipeline acc = (Inr (rs, pipeline'), w') \<Longrightarrow>
     length rs = length acc + length results
   \<and> (\<forall>j<length acc. rs ! j = acc ! j)
   \<and> (\<forall>j<length results.
         case results ! j of
           Some payload \<Rightarrow> rc_deserializer self payload = Inr (rs ! (length acc + j))
         | None \<Rightarrow>
             fn_body (original_fn (req_fn (fns ! (i + j)))) (args_of (fns ! (i + j)))
               (kwargs_of (fns ! (i + j))) = Inr (rs ! (length acc + j)))"
proof (induction results arbitrary: i w pipeline acc)
  case Nil
  then show ?case by simp
next
  case (Cons result rest)
  show ?case
  proof (cases result)
    case None
    from Cons.prems None obtain res s where
      body: "fn_body (original_fn (req_fn (fns ! i))) (args_of (fns ! i)) (kwargs_of (fns ! i)) = Inr res"
      and rec: "mget_loop self fns keys (Suc i) rest
                  (w\<lparr>invoked := invoked w @
                       [(fn_qualname (original_fn (req_fn (fns ! i))), args_of (fns ! i), kwargs_of (fns ! i))]\<rparr>)
                  (pipeline @ [(keys ! i, keys_key (req_fn (fns ! i)), to_bytes s,
                                ttl (req_fn (fns ! i)), limit (req_fn (fns ! i)))])
                  (acc @ [res]) = (Inr (rs, pipeline'), w')"
      by (auto simp: call_fn_def Let_def split: if_splits sum.splits)
    from Cons.IH[OF rec] have len: "length rs = length (acc @ [res]) + length rest"
      and pre: "\<forall>j<length (acc @ [res]). rs ! j = (acc @ [res]) ! j"
      and each: "\<forall>j<length rest.
         case rest ! j of
           Some payload \<Rightarrow> rc_deserializer self payload = Inr (rs ! (length (acc @ [res]) + j))
         | None \<Rightarrow>
             fn_body (original_fn (req_fn (fns ! (Suc i + j)))) (args_of (fns ! (Suc i + j)))
               (kwargs_of (fns ! (Suc i + j))) = Inr (rs ! (length (acc @ [res]) + j))"
      by blast+
    have here: "rs ! length acc = res" using pre by (simp add: nth_append)
    have old: "\<forall>j<length acc. rs ! j = acc ! j"
      using pre by (auto simp: nth_append)
    have "\<forall>j<length (result # rest).
         case (result # rest) ! j of
           Some payload \<Rightarrow> rc_deserializer self payload = Inr (rs ! (length acc + j))
         | None \<Rightarrow>
             fn_body (original_fn (req_fn (fns ! (i + j)))) (args_of (fns ! (i + j)))
               (kwargs_of (fns ! (i + j))) = Inr (rs ! (length acc + j))"
    proof (intro allI impI)
      fix j assume j: "j < length (result # rest)"
      show "case (result # rest) ! j of
           Some payload \<Rightarrow> rc_deserializer self payload = Inr (rs ! (length acc + j))
         | None \<Rightarrow>
             fn_body (original_fn (req_fn (fns ! (i + j)))) (args_of (fns ! (i + j)))
               (kwargs_of (fns ! (i + j))) = Inr (rs ! (length acc + j))"
      proof (cases j)
        case 0
        then show ?thesis using None body here by simp
      next
        case (Suc j')
        then have "j' < length rest" using j by simp
        with each have "case rest ! j' of
           Some payload \<Rightarrow> rc_deserializer self payload = Inr (rs ! (length (acc @ [res]) + j'))
         | None \<Rightarrow>
             fn_body (original_fn (req_fn (fns ! (Suc i + j')))) (args_of (fns ! (Suc i + j')))
               (kwargs_of (fns ! (Suc i + j'))) = Inr (rs ! (length (acc @ [res]) + j'))"
          by blast
        then show ?thesis using Suc by (simp split: option.splits)
      qed
    qed
    then show ?thesis using len old by simp
  next
    case (Some payload)
    from Cons.prems Some obtain res where
      des: "rc_deserializer self payload = Inr res"
      and rec: "mget_loop self fns keys (Suc i) rest w pipeline (acc @ [res]) = (Inr (rs, pipeline'), w')"
      by (auto split: sum.splits)
    from Cons.IH[OF rec] have len: "length rs = length (acc @ [res]) + length rest"
      and pre: "\<forall>j<length (acc @ [res]). rs ! j = (acc @ [res]) ! j"
      and each: "\<forall>j<length rest.
         case rest ! j of
           Some payload \<Rightarrow> rc_deserializer self payload = Inr (rs ! (length (acc @ [res]) + j))
         | None \<Rightarrow>
             fn_body (original_fn (req_fn (fns ! (Suc i + j)))) (args_of (fns ! (Suc i + j)))
               (kwargs_of (fns ! (Suc i + j))) = Inr (rs ! (length (acc @ [res]) + j))"
      by blast+
    have here: "rs ! length acc = res" using pre by (simp add: nth_append)
    have old: "\<forall>j<length acc. rs ! j = acc ! j"
      using pre by (auto simp: nth_append)
    have "\<forall>j<length (result # rest).
         case (result # rest) ! j of
           Some payload \<Rightarrow> rc_deserializer self payload = Inr (rs ! (length acc + j))
         | None \<Rightarrow>
             fn_body (original_fn (req_fn (fns ! (i + j)))) (args_of (fns ! (i + j)))
               (kwargs_of (fns ! (i + j))) = Inr (rs ! (length acc + j))"
    proof (intro allI impI)
      fix j assume j: "j < length (result # rest)"
      show "case (result # rest) ! j of
           Some payload \<Rightarrow> rc_deserializer self payload = Inr (rs ! (length acc + j))
         | None \<Rightarrow>
             fn_body (original_fn (req_fn (fns ! (i + j)))) (args_of (fns ! (i + j)))
               (kwargs_of (fns ! (i + j))) = Inr (rs ! (length acc + j))"
      proof (cases j)
        case 0
        then show ?thesis using Some des here by simp
      next
        case (Suc j')
        then have "j' < length rest" using j by simp
        with each have "case rest ! j' of
           Some payload \<Rightarrow> rc_deserializer self payload = Inr (rs ! (length (acc @ [res]) + j'))
         | None \<Rightarrow>
             fn_body (original_fn (req_fn (fns ! (Suc i + j')))) (args_of (fns ! (Suc i + j')))
               (kwargs_of (fns ! (Suc i + j'))) = Inr (rs ! (length (acc @ [res]) + j'))"
          by blast
        then show ?thesis using Suc by (simp split: option.splits)
      qed
    qed
    then show ?thesis using len old by simp
  qed
qed

text \<open>
  The scripts of a pipeline run one after the other, each at the server time it meets:
  with one and then two microseconds passing, two entries written with a ttl of a minute
  get deadlines two microseconds apart.
\<close>

lemma pipeline_scripts_run_in_turn:
  "store (snd (run_queued [(''b'', ''keys'', ''1'', 60, 0), (''a'', ''keys'', ''2'', 60, 0)]
                 (empty_world\<lparr>ticks := [1, 2]\<rparr>))) ''b''
     = Some (Str ''1'' (Some 60000001))
   \<and> store (snd (run_queued [(''b'', ''keys'', ''1'', 60, 0), (''a'', ''keys'', ''2'', 60, 0)]
                 (empty_world\<lparr>ticks := [1, 2]\<rparr>))) ''a''
     = Some (Str ''2'' (Some 60000003))
   \<and> clock (snd (run_queued [(''b'', ''keys'', ''1'', 60, 0), (''a'', ''keys'', ''2'', 60, 0)]
                 (empty_world\<lparr>ticks := [1, 2]\<rparr>))) = (0, 3)"
  by (simp add: lua_cache_fn_def redis_setex_def log_def next_script_time_def advance_def
      now_us_def empty_world_def Let_def)

text \<open>
  C8. When the batch call returns, the batch was not empty and the call returns one
  result per request, in the order of the requests: at every index the key is the one
  derived from that request's \<open>args\<close> and \<open>kwargs\<close> entries (an absent one counts as
  empty), and the result is the deserialized payload when the multi-key read found one
  under that key, and the value that request's function computed on those arguments when
  it found none.
\<close>

theorem mget_results_in_request_order:
  assumes "mget self w fns_with_args = (Inr results, w')"
  shows "fns_with_args \<noteq> []
       \<and> length results = length fns_with_args
       \<and> (\<exists>keys. mget_keys fns_with_args = Inr keys \<and> length keys = length fns_with_args
            \<and> (\<forall>i<length fns_with_args.
                  get_key (req_fn (fns_with_args ! i))
                    (case req_args (fns_with_args ! i) of Some a \<Rightarrow> a | None \<Rightarrow> [])
                    (case req_kwargs (fns_with_args ! i) of Some k \<Rightarrow> k | None \<Rightarrow> [])
                    = Inr (keys ! i)
                \<and> (case mget_slot w (keys ! i) of
                     Some payload \<Rightarrow> rc_deserializer self payload = Inr (results ! i)
                   | None \<Rightarrow>
                       fn_body (original_fn (req_fn (fns_with_args ! i)))
                         (case req_args (fns_with_args ! i) of Some a \<Rightarrow> a | None \<Rightarrow> [])
                         (case req_kwargs (fns_with_args ! i) of Some k \<Rightarrow> k | None \<Rightarrow> [])
                         = Inr (results ! i))))"
proof -
  from assms obtain keys where k: "mget_keys fns_with_args = Inr keys"
    by (auto simp: mget_def split: sum.splits)
  from mget_keys_Inr[OF k] have len: "length keys = length fns_with_args"
    and each: "\<forall>i<length fns_with_args.
         get_key (req_fn (fns_with_args ! i)) (args_of (fns_with_args ! i))
           (kwargs_of (fns_with_args ! i)) = Inr (keys ! i)"
    by simp_all
  from assms k have ne: "keys \<noteq> []"
    by (auto simp: mget_def client_mget_def)
  then have ne': "fns_with_args \<noteq> []" using len by auto
  from assms k ne have up: "down w = None"
    by (auto simp: mget_def client_mget_def split: option.splits)
  from assms k ne up obtain pipeline w2 where
    loop: "mget_loop self fns_with_args keys 0 (map (mget_slot w) keys) (log (MGET keys) w) [] []
             = (Inr (results, pipeline), w2)"
    by (auto simp: mget_def client_mget_def split: sum.splits prod.splits if_splits option.splits)
  note raw = mget_loop_Inr[OF loop]
  from raw have l: "length results = length keys" by simp
  have "\<forall>i<length fns_with_args.
          (case mget_slot w (keys ! i) of
             Some payload \<Rightarrow> rc_deserializer self payload = Inr (results ! i)
           | None \<Rightarrow>
               fn_body (original_fn (req_fn (fns_with_args ! i)))
                 (args_of (fns_with_args ! i)) (kwargs_of (fns_with_args ! i)) = Inr (results ! i))"
  proof (intro allI impI)
    fix i assume "i < length fns_with_args"
    then have i: "i < length keys" using len by simp
    from raw i have "case map (mget_slot w) keys ! i of
           Some payload \<Rightarrow> rc_deserializer self payload = Inr (results ! (length ([]::pyval list) + i))
         | None \<Rightarrow>
             fn_body (original_fn (req_fn (fns_with_args ! (0 + i)))) (args_of (fns_with_args ! (0 + i)))
               (kwargs_of (fns_with_args ! (0 + i))) = Inr (results ! (length ([]::pyval list) + i))"
      by simp
    then show "case mget_slot w (keys ! i) of
             Some payload \<Rightarrow> rc_deserializer self payload = Inr (results ! i)
           | None \<Rightarrow>
               fn_body (original_fn (req_fn (fns_with_args ! i)))
                 (args_of (fns_with_args ! i)) (kwargs_of (fns_with_args ! i)) = Inr (results ! i)"
      using i by (simp split: option.splits)
  qed
  then show ?thesis
    using k len l each ne' unfolding args_of_def kwargs_of_def by simp
qed

text \<open>
  C8, for every sequence of requests, fails: on the empty batch the multi-key read is
  called without a key and raises TypeError, so the call returns no sequence at all.
\<close>

theorem empty_batch_raises:
  "mget json_cache empty_world [] = (Inl TypeError, empty_world)"
  by (simp add: mget_def client_mget_def)

lemma add_named_2_2:
  "get_args add_signature [] [(''a'', VInt 2), (''b'', VInt 2)] = Inr [(''a'', VInt 2), (''b'', VInt 2)]"
  by code_simp

lemma add_mixed_1_2:
  "get_args add_signature [VInt 1] [(''b'', VInt 2)] = Inr [(''a'', VInt 1), (''b'', VInt 2)]"
  by code_simp

lemma add_key_2_2: "b64encode (encode_utf8 (dumps (VDict [(''a'', VInt 2), (''b'', VInt 2)]))) = ''eyJhIjoyLCJiIjoyfQ==''"
  by code_simp

lemma add_key_named_2_2:
  "get_key cached_add [] [(''a'', VInt 2), (''b'', VInt 2)] = Inr ''{rc:m.add}:eyJhIjoyLCJiIjoyfQ==''"
  using add_named_2_2 add_key_2_2
  by (simp add: get_key_def cached_add_fields add_fn_def compact_dump_def to_bytes_def
      get_full_prefix_def format_namespace_def)

lemma add_key_mixed_1_2:
  "get_key cached_add [VInt 1] [(''b'', VInt 2)] = Inr ''{rc:m.add}:eyJhIjoxLCJiIjoyfQ==''"
  using add_mixed_1_2 add_key
  by (simp add: get_key_def cached_add_fields add_fn_def compact_dump_def to_bytes_def
      get_full_prefix_def format_namespace_def)

lemma add_body_named_2_2: "add_body [] [(''a'', VInt 2), (''b'', VInt 2)] = Inr (VInt 4)"
  using add_named_2_2 by (simp add: add_body_def)

lemma dumps_4: "to_bytes (SStr (str_int 4)) = ''4''"
  by code_simp

theorem mget_results_in_request_order_witness:
  "fst (mget json_cache (snd (inner cached_add empty_world [VInt 1, VInt 2] []))
          [\<lparr>req_fn = cached_add, req_args = None,
            req_kwargs = Some [(''a'', VInt 2), (''b'', VInt 2)]\<rparr>,
           \<lparr>req_fn = cached_add, req_args = Some [VInt 1],
            req_kwargs = Some [(''b'', VInt 2)]\<rparr>])
     = Inr [VInt 4, VStr ''3'']
   \<and> mget_slot (snd (inner cached_add empty_world [VInt 1, VInt 2] []))
         ''{rc:m.add}:eyJhIjoyLCJiIjoyfQ=='' = None
   \<and> mget_slot (snd (inner cached_add empty_world [VInt 1, VInt 2] []))
         ''{rc:m.add}:eyJhIjoxLCJiIjoyfQ=='' = Some ''3''
   \<and> invoked (snd (mget json_cache (snd (inner cached_add empty_world [VInt 1, VInt 2] []))
          [\<lparr>req_fn = cached_add, req_args = None,
            req_kwargs = Some [(''a'', VInt 2), (''b'', VInt 2)]\<rparr>,
           \<lparr>req_fn = cached_add, req_args = Some [VInt 1],
            req_kwargs = Some [(''b'', VInt 2)]\<rparr>]))
     = [(''add'', [VInt 1, VInt 2], []), (''add'', [], [(''a'', VInt 2), (''b'', VInt 2)])]"
proof -
  define w where "w = snd (inner cached_add empty_world [VInt 1, VInt 2] [])"
  have w: "w = write_entry ((log (GET ''{rc:m.add}:eyJhIjoxLCJiIjoyfQ=='') empty_world)
                     \<lparr>invoked := [(''add'', [VInt 1, VInt 2], [])]\<rparr>)
        ''{rc:m.add}:eyJhIjoxLCJiIjoyfQ=='' ''3'' 0"
    unfolding w_def by (simp add: cached_add_first_call)
  have s1: "mget_slot w ''{rc:m.add}:eyJhIjoyLCJiIjoyfQ=='' = None"
    and s2: "mget_slot w ''{rc:m.add}:eyJhIjoxLCJiIjoyfQ=='' = Some ''3''"
    and d: "down w = None" and t: "ticks w = []"
    and i: "invoked w = [(''add'', [VInt 1, VInt 2], [])]"
    unfolding w by (simp_all add: mget_slot_def lookup_def)
  obtain r w' where m: "mget json_cache w
          [\<lparr>req_fn = cached_add, req_args = None,
            req_kwargs = Some [(''a'', VInt 2), (''b'', VInt 2)]\<rparr>,
           \<lparr>req_fn = cached_add, req_args = Some [VInt 1],
            req_kwargs = Some [(''b'', VInt 2)]\<rparr>]
        = (r, w')"
    by (cases "mget json_cache w
          [\<lparr>req_fn = cached_add, req_args = None,
            req_kwargs = Some [(''a'', VInt 2), (''b'', VInt 2)]\<rparr>,
           \<lparr>req_fn = cached_add, req_args = Some [VInt 1],
            req_kwargs = Some [(''b'', VInt 2)]\<rparr>]")
  have r: "r = Inr [VInt 4, VStr ''3'']"
    and i': "invoked w' = [(''add'', [VInt 1, VInt 2], []), (''add'', [], [(''a'', VInt 2), (''b'', VInt 2)])]"
    using m add_key_mixed_1_2 add_key_named_2_2 s1 s2 d t i add_body_named_2_2 dumps_4
    by (auto simp: mget_def args_of_def kwargs_of_def client_mget_def call_fn_def
        json_cache_def decode_latin1_def compact_dump_def cached_add_fields add_fn_def
        pipeline_execute_def next_script_time_def lua_cache_fn_alt Let_def)
  show ?thesis
    using mget_results_in_request_order[OF m[unfolded r]] m r i' s1 s2 unfolding w_def by simp
qed

end
